theory Spec2Isabelle
  imports Complex_Main "HOL-Library.AList" "HOL-Library.Multiset"
begin


section \<open>Numbers and rounding (src/lib/utils.ts)\<close>

text \<open>
  A TypeScript \<^verbatim>\<open>number\<close> is modelled by an exact rational: sums, differences,
  products and quotients are the mathematical ones, so the development speaks about
  the algorithms and not about the representation error of IEEE doubles.

  \<^verbatim>\<open>Math.round(x)\<close> is the integer nearest to \<open>x\<close>, a tie going up:
  \<open>\<lfloor>x + 1/2\<rfloor>\<close>.
  \<^verbatim>\<open>
  export function roundTo(value: number, decimals: number = 2): number {
    return Math.round(value * Math.pow(10, decimals)) / Math.pow(10, decimals);
  }
  \<close>
\<close>

type_synonym number = rat

definition Math_round :: "number \<Rightarrow> int" where
  "Math_round x = \<lfloor>x + 1 / 2\<rfloor>"

definition roundTo :: "number \<Rightarrow> nat \<Rightarrow> number" where
  "roundTo v decimals = of_int (Math_round (v * 10 ^ decimals)) / 10 ^ decimals"

section \<open>Debt settlement engine (src/agents/DebtOptimizerAgent.ts)\<close>

subsection \<open>Data\<close>

text \<open>
  \<^verbatim>\<open>Debt\<close> and \<^verbatim>\<open>Transaction\<close> are the same structure
  \<^verbatim>\<open>{ from: string, to: string, amount: number }\<close>; \<open>from\<close> and \<open>to\<close> are
  reserved words here, so the fields carry the suffix \<open>_id\<close>.
\<close>

record debt =
  from_id :: string
  to_id :: string
  amount :: number

type_synonym transaction = debt

record net_position =
  person :: string
  balance :: number

record debt_optimize_input =
  debts :: "debt list"
  minimumAmount :: "number option"

record debt_optimize_output =
  originalTransactions :: int
  optimizedTransactions :: int
  transactions :: "transaction list"
  saved :: int
  totalAmount :: number
  balances :: "(string \<times> number) list"

subsection \<open>calculateNetPositions\<close>

text \<open>
  The \<^verbatim>\<open>Map<string, number>\<close> keeps its keys in insertion order; it is an
  association list updated in place (\<^const>\<open>AList.update\<close> overwrites the value of an
  existing key where it stands and appends a new key at the end).
  \<^verbatim>\<open>positions.get(k) || 0\<close> is \<open>0\<close> for a missing key.
\<close>

definition get_or_0 :: "(string \<times> number) list \<Rightarrow> string \<Rightarrow> number" where
  "get_or_0 positions k = (case map_of positions k of None \<Rightarrow> 0 | Some v \<Rightarrow> v)"

definition add_debt :: "debt \<Rightarrow> (string \<times> number) list \<Rightarrow> (string \<times> number) list" where
  "add_debt d positions =
     (let positions1 = AList.update (from_id d) (get_or_0 positions (from_id d) - amount d) positions
      in AList.update (to_id d) (get_or_0 positions1 (to_id d) + amount d) positions1)"

text \<open>The \<^verbatim>\<open>for (const debt of debts)\<close> loop: the map before rounding.\<close>

definition accumulatePositions :: "debt list \<Rightarrow> (string \<times> number) list" where
  "accumulatePositions ds = fold add_debt ds []"

definition calculateNetPositions :: "debt list \<Rightarrow> net_position list" where
  "calculateNetPositions ds =
     map (\<lambda>(p, b). \<lparr>person = p, balance = roundTo b 2\<rparr>) (accumulatePositions ds)"

subsection \<open>optimizeDebts\<close>

text \<open>
  The \<^verbatim>\<open>NetPosition\<close> objects that \<^verbatim>\<open>calculateNetPositions\<close> creates are shared:
  \<^verbatim>\<open>filter\<close> keeps references, so the array \<^verbatim>\<open>creditors\<close> of
  \<^verbatim>\<open>optimizeDebts\<close> holds the very objects of the array \<^verbatim>\<open>netPositions\<close> of
  \<^verbatim>\<open>execute\<close>, and the assignment \<^verbatim>\<open>creditor.balance = ...\<close> in the loop is
  seen by \<^verbatim>\<open>execute\<close> when it builds \<^verbatim>\<open>balances\<close> afterwards. The debtors are
  copies (\<^verbatim>\<open>{ ...np, balance: -np.balance }\<close>). The objects live in a store, the list
  \<^verbatim>\<open>netPositions\<close> of \<^verbatim>\<open>execute\<close>; the address of an object is its index there, and
  \<^verbatim>\<open>filteredPositions\<close> and \<^verbatim>\<open>creditors\<close> are lists of addresses.

  The two-pointer loop, as written: \<open>i\<close> and \<open>j\<close> index the two arrays, the
  current creditor (in the store) and debtor (in its array) are overwritten, and one
  transaction is appended when the amount is at least one cent. The amount is the smaller
  of the two balances, so one of the two differences is \<open>0\<close> and its pointer moves: the
  loop ends. It returns the transactions, and the store as the loop leaves it.
\<close>

type_synonym ref = nat

lemma roundTo_0: "roundTo 0 decimals = 0"
  by (simp add: roundTo_def Math_round_def floor_eq_iff)

function optimizeLoop ::
  "net_position list \<Rightarrow> ref list \<Rightarrow> net_position list \<Rightarrow> nat \<Rightarrow> nat \<Rightarrow> transaction list
     \<Rightarrow> transaction list \<times> net_position list"
where
  "optimizeLoop store creditors debtors i j txs =
     (if i < length creditors \<and> j < length debtors then
        (let creditor = store ! (creditors ! i);
             debtor = debtors ! j;
             amt = min (balance creditor) (balance debtor);
             txs' = (if amt \<ge> 1 / 100
                     then txs @ [\<lparr>from_id = person debtor, to_id = person creditor,
                                  amount = roundTo amt 2\<rparr>]
                     else txs);
             creditor' = creditor\<lparr>balance := roundTo (balance creditor - amt) 2\<rparr>;
             debtor' = debtor\<lparr>balance := roundTo (balance debtor - amt) 2\<rparr>;
             i' = (if balance creditor' = 0 then i + 1 else i);
             j' = (if balance debtor' = 0 then j + 1 else j)
         in optimizeLoop (store[creditors ! i := creditor']) creditors (debtors[j := debtor'])
              i' j' txs')
      else (txs, store))"
  by pat_completeness auto
termination
proof (relation "measure (\<lambda>(store, cs, ds, i, j, txs). (length cs - i) + (length ds - j))")
  show "wf (measure (\<lambda>(store, cs, ds, i, j, txs). (length cs - i) + (length ds - j)))"
    by simp
next
  fix store debtors :: "net_position list" and creditors :: "ref list" and i j :: nat
    and txs :: "transaction list" and creditor debtor amt txs' creditor' debtor' i' j'
  assume a: "i < length creditors \<and> j < length debtors"
    and c: "creditor = store ! (creditors ! i)" and d: "debtor = debtors ! j"
    and m: "amt = min (balance creditor) (balance debtor)"
    and c': "creditor' = creditor\<lparr>balance := roundTo (balance creditor - amt) 2\<rparr>"
    and d': "debtor' = debtor\<lparr>balance := roundTo (balance debtor - amt) 2\<rparr>"
    and i': "i' = (if balance creditor' = 0 then i + 1 else i)"
    and j': "j' = (if balance debtor' = 0 then j + 1 else j)"
  have "balance creditor' = 0 \<or> balance debtor' = 0"
    using m c' d' by (cases "balance creditor \<le> balance debtor") (simp_all add: roundTo_0 min_def)
  then show "((store[creditors ! i := creditor'], creditors, debtors[j := debtor'], i', j', txs'),
              (store, creditors, debtors, i, j, txs))
             \<in> measure (\<lambda>(store, cs, ds, i, j, txs). (length cs - i) + (length ds - j))"
    using a i' j' by auto
qed

declare optimizeLoop.simps [simp del]

text \<open>
  \<^verbatim>\<open>sort((a, b) => b.balance - a.balance)\<close> is a stable sort, largest balance
  first: \<^const>\<open>sort_key\<close> (stable) on the negated balance. The argument
  \<^verbatim>\<open>netPositions\<close> of \<^verbatim>\<open>optimizeDebts\<close> is the array \<^verbatim>\<open>filteredPositions\<close>.
\<close>

definition optimizeDebts ::
  "net_position list \<Rightarrow> ref list \<Rightarrow> transaction list \<times> net_position list"
where
  "optimizeDebts store netPositions =
     (let creditors = sort_key (\<lambda>a. - balance (store ! a))
                        (filter (\<lambda>a. balance (store ! a) > 0) netPositions);
          debtors = sort_key (\<lambda>np. - balance np)
                      (map (\<lambda>a. (store ! a)\<lparr>balance := - balance (store ! a)\<rparr>)
                         (filter (\<lambda>a. balance (store ! a) < 0) netPositions))
      in optimizeLoop store creditors debtors 0 0 [])"

subsection \<open>execute\<close>

text \<open>
  \<^verbatim>\<open>balances\<close> is built from the array \<^verbatim>\<open>netPositions\<close> after
  \<^verbatim>\<open>optimizeDebts\<close> has run: from the store as the loop left it.
\<close>

definition execute :: "debt_optimize_input \<Rightarrow> debt_optimize_output" where
  "execute input =
     (let ds = debts input;
          minAmt = (case minimumAmount input of None \<Rightarrow> 1 / 2 | Some m \<Rightarrow> m)
      in if length ds = 0 then
           \<lparr>originalTransactions = 0, optimizedTransactions = 0, transactions = [],
            saved = 0, totalAmount = 0, balances = []\<rparr>
         else
           (let netPositions = calculateNetPositions ds;
                filteredPositions = filter (\<lambda>a. \<bar>balance (netPositions ! a)\<bar> \<ge> minAmt)
                                      [0 ..< length netPositions];
                (optimized, netPositions') = optimizeDebts netPositions filteredPositions;
                total = fold (\<lambda>t s. s + amount t) optimized 0;
                bals = fold (\<lambda>np b. AList.update (person np) (roundTo (balance np) 2) b)
                         netPositions' []
            in \<lparr>originalTransactions = int (length ds),
                optimizedTransactions = int (length optimized),
                transactions = optimized,
                saved = int (length ds) - int (length optimized),
                totalAmount = roundTo total 2,
                balances = bals\<rparr>))"

subsection \<open>validateOutput\<close>

text \<open>
  The check throws at the first entry of \<^verbatim>\<open>output.balances\<close> whose replayed
  balance is more than \<open>0.01\<close> away. The entries are taken in insertion order (the
  order of \<^verbatim>\<open>Object.entries\<close> for keys that are not array indices); the order only
  decides which mismatch is reported.
\<close>

datatype error =
  BalanceMismatch string number number
| InputValidationFailed string string

fun checkBalances :: "(string \<times> number) list \<Rightarrow> (string \<times> number) list \<Rightarrow> error + unit" where
  "checkBalances newBalances [] = Inr ()"
| "checkBalances newBalances ((p, originalBalance) # rest) =
     (let newBalance = get_or_0 newBalances p;
          difference = \<bar>originalBalance - newBalance\<bar>
      in if difference > 1 / 100 then Inl (BalanceMismatch p originalBalance newBalance)
         else checkBalances newBalances rest)"

definition replayBalances :: "transaction list \<Rightarrow> (string \<times> number) list" where
  "replayBalances ts =
     (let debtsFromOptimized =
            map (\<lambda>t. \<lparr>from_id = from_id t, to_id = to_id t, amount = amount t\<rparr>) ts;
          newPositions = calculateNetPositions debtsFromOptimized
      in fold (\<lambda>np b. AList.update (person np) (balance np) b) newPositions [])"

definition validateOutput :: "debt_optimize_output \<Rightarrow> error + unit" where
  "validateOutput output = checkBalances (replayBalances (transactions output)) (balances output)"

subsection \<open>detectCircularDebts\<close>

text \<open>
  An edge of the adjacency list is the debt with its position in the input:
  \<^verbatim>\<open>{ ...debt, index }\<close>.
\<close>

record edge = debt +
  index :: nat

record circular_result =
  circular :: "edge list list"
  remaining :: "debt list"

definition edges_of :: "(string \<times> edge list) list \<Rightarrow> string \<Rightarrow> edge list" where
  "edges_of graph p = (case map_of graph p of None \<Rightarrow> [] | Some es \<Rightarrow> es)"

definition add_edge :: "debt \<times> nat \<Rightarrow> (string \<times> edge list) list \<Rightarrow> (string \<times> edge list) list" where
  "add_edge di graph =
     (let d = fst di;
          graph1 = (if map_of graph (from_id d) = None then AList.update (from_id d) [] graph
                    else graph)
      in AList.update (from_id d)
           (edges_of graph1 (from_id d) @
              [\<lparr>from_id = from_id d, to_id = to_id d, amount = amount d, index = snd di\<rparr>])
           graph1)"

definition buildGraph :: "debt list \<Rightarrow> (string \<times> edge list) list" where
  "buildGraph ds = fold add_edge (zip ds [0 ..< length ds]) []"

text \<open>
  The closure \<^verbatim>\<open>dfs(person, start)\<close>. The set \<^verbatim>\<open>visited\<close> and the array
  \<^verbatim>\<open>path\<close> are changed before the loop over the edges and restored after it
  (\<^verbatim>\<open>add\<close>/\<^verbatim>\<open>delete\<close>, \<^verbatim>\<open>push\<close>/\<^verbatim>\<open>pop\<close>), so each call sees them as
  arguments; \<^verbatim>\<open>circles\<close> only grows and is threaded through. The test
  \<^verbatim>\<open>!edge.index || !used.has(edge.index)\<close> holds for index \<open>0\<close> whatever
  \<^verbatim>\<open>used\<close> holds.
\<close>

function dfs ::
  "(string \<times> edge list) list \<Rightarrow> nat set \<Rightarrow> string \<Rightarrow> string set \<Rightarrow> edge list \<Rightarrow> string
     \<Rightarrow> edge list list \<Rightarrow> edge list list"
where
  "dfs graph used start visited path p circles =
     (if p \<in> visited then
        (if p = start \<and> length path \<ge> 3 then circles @ [path] else circles)
      else
        fold (\<lambda>e cs.
                if index e = 0 \<or> index e \<notin> used
                then dfs graph used start (insert p visited) (path @ [e]) (to_id e) cs
                else cs)
          (edges_of graph p) circles)"
  by pat_completeness auto
termination
proof (relation "measure (\<lambda>(graph, used, start, visited, path, p, circles).
                            card (fst ` set graph - visited))")
  show "wf (measure (\<lambda>(graph, used, start, visited, path, p, circles).
                       card (fst ` set graph - visited)))"
    by simp
next
  fix graph :: "(string \<times> edge list) list" and used :: "nat set" and start p :: string
    and visited :: "string set" and path :: "edge list" and circles cs :: "edge list list"
    and e :: edge
  assume nv: "p \<notin> visited" and e: "e \<in> set (edges_of graph p)"
  from e obtain es where "map_of graph p = Some es"
    by (cases "map_of graph p") (simp_all add: edges_of_def)
  then have "(p, es) \<in> set graph"
    by (rule map_of_SomeD)
  then have "p \<in> fst ` set graph"
    by force
  with nv have "card (fst ` set graph - insert p visited) < card (fst ` set graph - visited)"
    by (intro psubset_card_mono) auto
  then show "((graph, used, start, insert p visited, path @ [e], to_id e, cs),
              (graph, used, start, visited, path, p, circles))
             \<in> measure (\<lambda>(graph, used, start, visited, path, p, circles).
                           card (fst ` set graph - visited))"
    by simp
qed

declare dfs.simps [simp del]

text \<open>
  \<^verbatim>\<open>used\<close> is still empty while the searches run; the indices of the edges on
  the recorded cycles are added to it afterwards.
\<close>

definition detectCircularDebts :: "debt list \<Rightarrow> circular_result" where
  "detectCircularDebts ds =
     (let graph = buildGraph ds;
          circles = fold (\<lambda>p cs. dfs graph {} p {} [] p cs) (map fst graph) [];
          used = fold (\<lambda>circle u. fold (\<lambda>e u. insert (index e) u) circle u) circles {};
          rest = map fst (filter (\<lambda>(d, k). k \<notin> used) (zip ds [0 ..< length ds]))
      in \<lparr>circular = circles, remaining = rest\<rparr>)"

subsection \<open>calculateFairnessScore, and calculateGini of src/lib/utils.ts\<close>









section \<open>Guardrails and the unit-of-work runner\<close>

text \<open>
  \<^verbatim>\<open>BusinessLogicGuardrail.validate\<close> (src/guardrails/Guardrails.ts) on a
  \<^verbatim>\<open>DebtOptimizeInput\<close>: the input has no \<^verbatim>\<open>amount\<close> and no \<^verbatim>\<open>total\<close>
  field, so only the check of the array \<^verbatim>\<open>debts\<close> applies.
\<close>

record validation_result =
  valid :: bool
  reason :: "string option"

record guardrail =
  name :: string
  validate :: "debt_optimize_input \<Rightarrow> validation_result"

definition BusinessLogicGuardrail :: guardrail where
  "BusinessLogicGuardrail =
     \<lparr>name = ''BusinessLogic'',
      validate = (\<lambda>inp.
        if length (debts inp) = 0
        then \<lparr>valid = False, reason = Some ''At least one debt is required''\<rparr>
        else if length (debts inp) > 1000
        then \<lparr>valid = False, reason = Some ''Too many debts (max 1000)''\<rparr>
        else \<lparr>valid = True, reason = None\<rparr>)\<rparr>"

text \<open>
  \<^verbatim>\<open>BaseAgent.validateInput\<close> throws at the first guardrail that rejects;
  \<^verbatim>\<open>BaseAgent.run\<close> is input validation, \<^verbatim>\<open>execute\<close>, output validation.
  The audit record that \<^verbatim>\<open>run\<close> writes in its \<^verbatim>\<open>finally\<close> block does not
  change the result and is left out.
\<close>

fun validateInput :: "guardrail list \<Rightarrow> debt_optimize_input \<Rightarrow> error + unit" where
  "validateInput [] inp = Inr ()"
| "validateInput (g # gs) inp =
     (let r = validate g inp
      in if \<not> valid r
         then Inl (InputValidationFailed (name g) (case reason r of None \<Rightarrow> ''undefined'' | Some m \<Rightarrow> m))
         else validateInput gs inp)"

definition run :: "guardrail list \<Rightarrow> debt_optimize_input \<Rightarrow> error + debt_optimize_output" where
  "run guardrails inp =
     (case validateInput guardrails inp of
        Inl e \<Rightarrow> Inl e
      | Inr _ \<Rightarrow>
          (let r = execute inp
           in case validateOutput r of Inl e \<Rightarrow> Inl e | Inr _ \<Rightarrow> Inr r))"

section \<open>Task graph orchestrator (src/agents/base/AgentOrchestrator.ts)\<close>

subsection \<open>Data\<close>

text \<open>
  The fields \<^verbatim>\<open>id\<close>, \<^verbatim>\<open>type\<close> and \<^verbatim>\<open>input\<close> of a task carry the prefix
  \<open>task_\<close>. The \<^verbatim>\<open>duration\<close> of a result and the \<^verbatim>\<open>totalDuration\<close> of a run
  are clock readings and are left out. The fields of \<^verbatim>\<open>OrchestrationResult\<close>
  carry the prefix \<open>run_\<close>, since \<^verbatim>\<open>success\<close> is also a field of a task result;
  \<^verbatim>\<open>output\<close> is a reserved word and becomes \<open>result_output\<close>.
\<close>

record 'i task =
  task_id :: string
  task_type :: string
  task_input :: 'i
  dependencies :: "string list option"

record 'o task_result =
  taskId :: string
  success :: bool
  result_output :: "'o option"
  error :: "string option"

record 'o orchestration_result =
  run_success :: bool
  run_results :: "'o task_result list"
  run_errors :: "string list"

text \<open>
  What an agent receives: the task's own input, or that input extended with the field
  \<^verbatim>\<open>dependencies\<close> (the outputs of the successful dependencies, by task id).
\<close>

datatype ('i, 'o) agent_input =
  Plain 'i
| WithDependencies 'i "(string \<times> 'o option) list"

text \<open>
  An agent's \<^verbatim>\<open>run\<close> returns an output or throws an error with a message. The
  registry \<^verbatim>\<open>agents\<close> maps a task type to an agent.
\<close>

type_synonym ('i, 'o) agent = "('i, 'o) agent_input \<Rightarrow> string + 'o"

text \<open>
  The state of a run: the map \<^verbatim>\<open>this.results\<close> (in insertion order), the array
  \<^verbatim>\<open>errors\<close>, and a log of the task ids whose agent was invoked.
\<close>

record 'o run_state =
  results :: "(string \<times> 'o task_result) list"
  errors :: "string list"
  invoked :: "string list"

subsection \<open>topologicalSort\<close>

text \<open>
  The closure \<^verbatim>\<open>visit\<close>. The set \<^verbatim>\<open>visiting\<close> gains the task's id before the loop
  over its dependencies and loses it after the loop, so each call sees it as an argument;
  \<^verbatim>\<open>visited\<close> and \<^verbatim>\<open>sorted\<close> only grow and are threaded through. A thrown error
  is \<open>Inl\<close> of its message and ends every enclosing loop.
\<close>

record 'i sort_state =
  sorted_tasks :: "'i task list"
  visited :: "string set"

definition deps_of :: "'i task \<Rightarrow> string list" where
  "deps_of t = (case dependencies t of None \<Rightarrow> [] | Some ds \<Rightarrow> ds)"

function visit ::
  "'i task list \<Rightarrow> string set \<Rightarrow> 'i task \<Rightarrow> 'i sort_state \<Rightarrow> string + 'i sort_state"
where
  "visit tasks visiting t st =
     (if task_id t \<in> visited st then Inr st
      else if task_id t \<in> visiting
      then Inl (''Circular dependency detected involving task '' @ task_id t)
      else
        (case fold (\<lambda>depId acc.
                      case acc of
                        Inl e \<Rightarrow> Inl e
                      | Inr st1 \<Rightarrow>
                          (case find (\<lambda>u. task_id u = depId) tasks of
                             None \<Rightarrow> Inr st1
                           | Some depTask \<Rightarrow> visit tasks (insert (task_id t) visiting) depTask st1))
                (deps_of t) (Inr st) of
           Inl e \<Rightarrow> Inl e
         | Inr st2 \<Rightarrow>
             Inr (st2\<lparr>visited := insert (task_id t) (visited st2),
                      sorted_tasks := sorted_tasks st2 @ [t]\<rparr>)))"
  by pat_completeness auto
termination
proof (relation "measure (\<lambda>(tasks, visiting, t, st).
                            card ((task_id ` set tasks \<union> {task_id t}) - visiting))")
  show "wf (measure (\<lambda>(tasks, visiting, t, st).
                       card ((task_id ` set tasks \<union> {task_id t}) - visiting)))"
    by simp
next
  fix tasks :: "'i task list" and visiting :: "string set" and t depTask :: "'i task"
    and st st1 :: "'i sort_state" and depId :: string
  assume nv: "task_id t \<notin> visiting"
    and f: "find (\<lambda>u. task_id u = depId) tasks = Some depTask"
  from f have "depTask \<in> set tasks"
    by (auto simp: find_Some_iff)
  then have "(task_id ` set tasks \<union> {task_id depTask}) - insert (task_id t) visiting
             \<subset> (task_id ` set tasks \<union> {task_id t}) - visiting"
    using nv by auto
  then have "card ((task_id ` set tasks \<union> {task_id depTask}) - insert (task_id t) visiting)
             < card ((task_id ` set tasks \<union> {task_id t}) - visiting)"
    by (intro psubset_card_mono) auto
  then show "((tasks, insert (task_id t) visiting, depTask, st1), (tasks, visiting, t, st))
             \<in> measure (\<lambda>(tasks, visiting, t, st).
                           card ((task_id ` set tasks \<union> {task_id t}) - visiting))"
    by simp
qed

declare visit.simps [simp del]

definition topologicalSort :: "'i task list \<Rightarrow> string + 'i task list" where
  "topologicalSort tasks =
     (case fold (\<lambda>t acc. case acc of Inl e \<Rightarrow> Inl e | Inr st \<Rightarrow> visit tasks {} t st)
             tasks (Inr \<lparr>sorted_tasks = [], visited = {}\<rparr>) of
        Inl e \<Rightarrow> Inl e
      | Inr st \<Rightarrow> Inr (sorted_tasks st))"

subsection \<open>execute\<close>

definition dependenciesMet :: "(string \<times> 'o task_result) list \<Rightarrow> 'i task \<Rightarrow> bool" where
  "dependenciesMet res t =
     (case dependencies t of
        None \<Rightarrow> True
      | Some deps \<Rightarrow>
          list_all (\<lambda>depId. case map_of res depId of None \<Rightarrow> False | Some r \<Rightarrow> success r) deps)"

definition prepareInput :: "(string \<times> 'o task_result) list \<Rightarrow> 'i task \<Rightarrow> ('i, 'o) agent_input" where
  "prepareInput res t =
     (case dependencies t of
        None \<Rightarrow> Plain (task_input t)
      | Some deps \<Rightarrow>
          if length deps = 0 then Plain (task_input t)
          else WithDependencies (task_input t)
                 (fold (\<lambda>depId outs.
                          case map_of res depId of
                            None \<Rightarrow> outs
                          | Some r \<Rightarrow> if success r then AList.update depId (result_output r) outs else outs)
                    deps []))"

text \<open>The \<^verbatim>\<open>catch\<close> block of one task: one message, one failed result.\<close>

definition recordFailure :: "'i task \<Rightarrow> string \<Rightarrow> 'o run_state \<Rightarrow> 'o run_state" where
  "recordFailure t errorMessage st =
     st\<lparr>errors := errors st @ [''Task '' @ task_id t @ '': '' @ errorMessage],
        results := AList.update (task_id t)
                     \<lparr>taskId = task_id t, success = False, result_output = None, error = Some errorMessage\<rparr>
                     (results st)\<rparr>"

text \<open>The body of the loop \<^verbatim>\<open>for (const task of sorted)\<close>.\<close>

definition runTask :: "(string \<rightharpoonup> ('i, 'o) agent) \<Rightarrow> 'i task \<Rightarrow> 'o run_state \<Rightarrow> 'o run_state" where
  "runTask agents t st =
     (if \<not> dependenciesMet (results st) t
      then recordFailure t (''Dependencies not satisfied for task '' @ task_id t) st
      else
        (case agents (task_type t) of
           None \<Rightarrow> recordFailure t (''No agent registered for type: '' @ task_type t) st
         | Some agent \<Rightarrow>
             (let st1 = st\<lparr>invoked := invoked st @ [task_id t]\<rparr>
              in case agent (prepareInput (results st) t) of
                   Inl errorMessage \<Rightarrow> recordFailure t errorMessage st1
                 | Inr out \<Rightarrow>
                     st1\<lparr>results := AList.update (task_id t)
                                       \<lparr>taskId = task_id t, success = True, result_output = Some out,
                                        error = None\<rparr>
                                       (results st1)\<rparr>)))"

text \<open>
  \<^verbatim>\<open>AgentOrchestrator.execute\<close>: the result map is cleared, the queue is sorted
  (an error of the sort leaves \<^verbatim>\<open>execute\<close>, nothing catches it), then the tasks run
  in order. The function returns the outcome and the final state of the run.
\<close>

definition AgentOrchestrator_execute ::
  "(string \<rightharpoonup> ('i, 'o) agent) \<Rightarrow> 'i task list
     \<Rightarrow> (string + 'o orchestration_result) \<times> 'o run_state"
where
  "AgentOrchestrator_execute agents taskQueue =
     (let st0 = \<lparr>results = [], errors = [], invoked = []\<rparr>
      in case topologicalSort taskQueue of
           Inl e \<Rightarrow> (Inl e, st0)
         | Inr sorted' \<Rightarrow>
             (let st = fold (runTask agents) sorted' st0
              in (Inr \<lparr>run_success = (length (errors st) = 0),
                       run_results = map snd (results st),
                       run_errors = errors st\<rparr>, st)))"

section \<open>Concrete inputs\<close>

definition scenario_debts :: "debt list" where
  "scenario_debts =
     [\<lparr>from_id = ''alice'', to_id = ''bob'', amount = 29.15\<rparr>,
      \<lparr>from_id = ''charlie'', to_id = ''bob'', amount = 29.15\<rparr>]"

definition cycle_debts :: "debt list" where
  "cycle_debts =
     [\<lparr>from_id = ''A'', to_id = ''B'', amount = 10\<rparr>,
      \<lparr>from_id = ''B'', to_id = ''C'', amount = 10\<rparr>,
      \<lparr>from_id = ''C'', to_id = ''A'', amount = 10\<rparr>]"

definition empty_output :: debt_optimize_output where
  "empty_output =
     \<lparr>originalTransactions = 0, optimizedTransactions = 0, transactions = [],
      saved = 0, totalAmount = 0, balances = []\<rparr>"

definition cent_debts :: "debt list" where
  "cent_debts =
     [\<lparr>from_id = ''d1'', to_id = ''c1'', amount = 0.99\<rparr>,
      \<lparr>from_id = ''d2'', to_id = ''c1'', amount = 0.01\<rparr>,
      \<lparr>from_id = ''d2'', to_id = ''c2'', amount = 0.50\<rparr>]"

definition forgiven_debts :: "debt list" where
  "forgiven_debts = [\<lparr>from_id = ''alice'', to_id = ''bob'', amount = 0.3\<rparr>]"


text \<open>
  Tasks with a unit payload, and a registry with one agent, of type \<open>ok\<close>, that always
  succeeds with the output \<open>7\<close>.
\<close>

definition mk_task :: "string \<Rightarrow> string \<Rightarrow> string list option \<Rightarrow> unit task" where
  "mk_task i ty ds = \<lparr>task_id = i, task_type = ty, task_input = (), dependencies = ds\<rparr>"

definition cycle_tasks :: "unit task list" where
  "cycle_tasks =
     [\<lparr>task_id = ''A'', task_type = ''ok'', task_input = (), dependencies = Some [''B'']\<rparr>,
      \<lparr>task_id = ''B'', task_type = ''ok'', task_input = (), dependencies = Some [''C'']\<rparr>,
      \<lparr>task_id = ''C'', task_type = ''ok'', task_input = (), dependencies = Some [''A'']\<rparr>]"

definition demo_agents :: "string \<rightharpoonup> (unit, nat) agent" where
  "demo_agents = [''ok'' \<mapsto> (\<lambda>_. Inr 7)]"

text \<open>
  A registry with two agents: \<open>ok\<close> returns \<open>7\<close> on a plain input and the number of
  dependency outputs otherwise; \<open>bad\<close> always throws \<open>boom\<close>.
\<close>

definition isolation_agents :: "string \<rightharpoonup> (unit, nat) agent" where
  "isolation_agents =
     [''ok'' \<mapsto> (\<lambda>inp. Inr (case inp of Plain _ \<Rightarrow> 7 | WithDependencies _ outs \<Rightarrow> length outs)),
      ''bad'' \<mapsto> (\<lambda>_. Inl ''boom'')]"

text \<open>
  Seven tasks, queued out of order: \<open>T1\<close> succeeds; the agent of \<open>T2\<close> (which depends
  on \<open>T1\<close>) throws; \<open>T3\<close> depends on \<open>T2\<close>; \<open>T4\<close> is independent; \<open>T5\<close> depends
  on \<open>T9\<close>, which is not queued; \<open>T6\<close> has no agent for its type; \<open>T7\<close> depends on
  \<open>T1\<close>.
\<close>

definition isolation_tasks :: "unit task list" where
  "isolation_tasks =
     [mk_task ''T3'' ''ok'' (Some [''T2'']),
      mk_task ''T2'' ''bad'' (Some [''T1'']),
      mk_task ''T1'' ''ok'' None,
      mk_task ''T4'' ''ok'' (Some []),
      mk_task ''T5'' ''ok'' (Some [''T9'']),
      mk_task ''T6'' ''missing'' None,
      mk_task ''T7'' ''ok'' (Some [''T1''])]"

definition isolation_order :: "unit task list" where
  "isolation_order =
     [mk_task ''T1'' ''ok'' None,
      mk_task ''T2'' ''bad'' (Some [''T1'']),
      mk_task ''T3'' ''ok'' (Some [''T2'']),
      mk_task ''T4'' ''ok'' (Some []),
      mk_task ''T5'' ''ok'' (Some [''T9'']),
      mk_task ''T6'' ''missing'' None,
      mk_task ''T7'' ''ok'' (Some [''T1''])]"

definition isolation_results :: "nat task_result list" where
  "isolation_results =
     [\<lparr>taskId = ''T1'', success = True, result_output = Some 7, error = None\<rparr>,
      \<lparr>taskId = ''T2'', success = False, result_output = None, error = Some ''boom''\<rparr>,
      \<lparr>taskId = ''T3'', success = False, result_output = None,
       error = Some ''Dependencies not satisfied for task T3''\<rparr>,
      \<lparr>taskId = ''T4'', success = True, result_output = Some 7, error = None\<rparr>,
      \<lparr>taskId = ''T5'', success = False, result_output = None,
       error = Some ''Dependencies not satisfied for task T5''\<rparr>,
      \<lparr>taskId = ''T6'', success = False, result_output = None,
       error = Some ''No agent registered for type: missing''\<rparr>,
      \<lparr>taskId = ''T7'', success = True, result_output = Some 1, error = None\<rparr>]"

definition isolation_errors :: "string list" where
  "isolation_errors =
     [''Task T2: boom'',
      ''Task T3: Dependencies not satisfied for task T3'',
      ''Task T5: Dependencies not satisfied for task T5'',
      ''Task T6: No agent registered for type: missing'']"

section \<open>The matching loop on values\<close>

text \<open>
  The loop of \<^verbatim>\<open>optimizeDebts\<close> with the creditors held as values instead of
  addresses: what the loop does to the transactions does not depend on where the creditor
  objects live. The facts about the transactions are proved on this form and carried over
  to \<^const>\<open>optimizeLoop\<close>.
\<close>

function settleLoop ::
  "net_position list \<Rightarrow> net_position list \<Rightarrow> nat \<Rightarrow> nat \<Rightarrow> transaction list \<Rightarrow> transaction list"
where
  "settleLoop creditors debtors i j txs =
     (if i < length creditors \<and> j < length debtors then
        (let creditor = creditors ! i;
             debtor = debtors ! j;
             amt = min (balance creditor) (balance debtor);
             txs' = (if amt \<ge> 1 / 100
                     then txs @ [\<lparr>from_id = person debtor, to_id = person creditor,
                                  amount = roundTo amt 2\<rparr>]
                     else txs);
             creditor' = creditor\<lparr>balance := roundTo (balance creditor - amt) 2\<rparr>;
             debtor' = debtor\<lparr>balance := roundTo (balance debtor - amt) 2\<rparr>;
             i' = (if balance creditor' = 0 then i + 1 else i);
             j' = (if balance debtor' = 0 then j + 1 else j)
         in settleLoop (creditors[i := creditor']) (debtors[j := debtor']) i' j' txs')
      else txs)"
  by pat_completeness auto
termination
proof (relation "measure (\<lambda>(cs, ds, i, j, txs). (length cs - i) + (length ds - j))")
  show "wf (measure (\<lambda>(cs, ds, i, j, txs). (length cs - i) + (length ds - j)))"
    by simp
next
  fix creditors debtors :: "net_position list" and i j :: nat and txs :: "transaction list"
    and creditor debtor amt txs' creditor' debtor' i' j'
  assume a: "i < length creditors \<and> j < length debtors"
    and c: "creditor = creditors ! i" and d: "debtor = debtors ! j"
    and m: "amt = min (balance creditor) (balance debtor)"
    and c': "creditor' = creditor\<lparr>balance := roundTo (balance creditor - amt) 2\<rparr>"
    and d': "debtor' = debtor\<lparr>balance := roundTo (balance debtor - amt) 2\<rparr>"
    and i': "i' = (if balance creditor' = 0 then i + 1 else i)"
    and j': "j' = (if balance debtor' = 0 then j + 1 else j)"
  have "balance creditor' = 0 \<or> balance debtor' = 0"
    using m c' d' by (cases "balance creditor \<le> balance debtor") (simp_all add: roundTo_0 min_def)
  then show "((creditors[i := creditor'], debtors[j := debtor'], i', j', txs'),
              (creditors, debtors, i, j, txs))
             \<in> measure (\<lambda>(cs, ds, i, j, txs). (length cs - i) + (length ds - j))"
    using a i' j' by auto
qed

declare settleLoop.simps [simp del]

definition settlePositions :: "net_position list \<Rightarrow> transaction list" where
  "settlePositions netPositions =
     (let creditors = sort_key (\<lambda>np. - balance np) (filter (\<lambda>np. balance np > 0) netPositions);
          debtors = sort_key (\<lambda>np. - balance np)
                      (map (\<lambda>np. np\<lparr>balance := - balance np\<rparr>)
                         (filter (\<lambda>np. balance np < 0) netPositions))
      in settleLoop creditors debtors 0 0 [])"

section \<open>Vocabulary of the statements\<close>

text \<open>A number of whole cents.\<close>

definition cents :: "number \<Rightarrow> bool" where
  "cents x = (roundTo x 2 = x)"

text \<open>The net balance of a party in a list of debts: what it is owed minus what it owes.\<close>

definition net :: "debt list \<Rightarrow> string \<Rightarrow> number" where
  "net ds p = (\<Sum>d\<leftarrow>ds. (if to_id d = p then amount d else 0) - (if from_id d = p then amount d else 0))"

text \<open>The parties that a list of debts mentions.\<close>

definition parties :: "debt list \<Rightarrow> string set" where
  "parties ds = (\<Union>d\<in>set ds. {from_id d, to_id d})"

text \<open>The minimum amount in force: the one given, or the default \<open>0.5\<close>.\<close>

definition min_amount :: "debt_optimize_input \<Rightarrow> number" where
  "min_amount inp = (case minimumAmount inp of None \<Rightarrow> 1 / 2 | Some m \<Rightarrow> m)"

text \<open>
  What the transactions pay to a party and what they take from it; the balance of a
  party in a list of positions.
\<close>

definition inflow :: "transaction list \<Rightarrow> string \<Rightarrow> number" where
  "inflow ts p = (\<Sum>t\<leftarrow>ts. if to_id t = p then amount t else 0)"

definition outflow :: "transaction list \<Rightarrow> string \<Rightarrow> number" where
  "outflow ts p = (\<Sum>t\<leftarrow>ts. if from_id t = p then amount t else 0)"

definition credit :: "net_position list \<Rightarrow> string \<Rightarrow> number" where
  "credit xs p = (\<Sum>x\<leftarrow>xs. if person x = p then balance x else 0)"

text \<open>Positions whose balances are positive whole cents.\<close>

definition positive_cents :: "net_position list \<Rightarrow> bool" where
  "positive_cents xs = (\<forall>x\<in>set xs. cents (balance x) \<and> 0 < balance x)"

text \<open>
  The invariant of the matching loop on positive whole-cent positions of equal totals:
  what has been paid to a party so far plus what the rest of the creditors' array still
  holds for it is the fixed amount \<open>C p\<close>, and likewise \<open>D p\<close> on the debtors' side.
\<close>

definition settling ::
  "(string \<Rightarrow> number) \<Rightarrow> (string \<Rightarrow> number) \<Rightarrow>
   net_position list \<Rightarrow> net_position list \<Rightarrow> nat \<Rightarrow> nat \<Rightarrow> transaction list \<Rightarrow> bool"
where
  "settling C D cs ds i j txs =
     (positive_cents (drop i cs) \<and> positive_cents (drop j ds)
      \<and> sum_list (map balance (drop i cs)) = sum_list (map balance (drop j ds))
      \<and> (\<forall>p. inflow txs p + credit (drop i cs) p = C p)
      \<and> (\<forall>p. outflow txs p + credit (drop j ds) p = D p))"


text \<open>One pass of the loop of \<^verbatim>\<open>visit\<close> over the dependencies of a task.\<close>

definition visit_dep ::
  "'i task list \<Rightarrow> string set \<Rightarrow> string \<Rightarrow> string + 'i sort_state \<Rightarrow> string + 'i sort_state"
where
  "visit_dep tasks visiting depId acc =
     (case acc of
        Inl e \<Rightarrow> Inl e
      | Inr st1 \<Rightarrow>
          (case find (\<lambda>u. task_id u = depId) tasks of
             None \<Rightarrow> Inr st1
           | Some depTask \<Rightarrow> visit tasks visiting depTask st1))"

text \<open>
  The dependency graph on task ids: an edge from a task to each of its dependencies
  that names a task of the set.
\<close>

definition dep_edges :: "'i task list \<Rightarrow> (string \<times> string) set" where
  "dep_edges tasks =
     {(x, d). \<exists>t. t \<in> set tasks \<and> x = task_id t \<and> d \<in> set (deps_of t) \<and> d \<in> task_id ` set tasks}"

text \<open>A set of ids that contains every dependency of its members.\<close>

definition closed_under :: "(string \<times> string) set \<Rightarrow> string set \<Rightarrow> bool" where
  "closed_under E S = (\<forall>x y. x \<in> S \<and> (x, y) \<in> E \<longrightarrow> y \<in> S)"

text \<open>The circular-dependency error for a task that lies on a cycle.\<close>

definition names_cycle :: "(string \<times> string) set \<Rightarrow> string \<Rightarrow> bool" where
  "names_cycle E e =
     (\<exists>y. e = ''Circular dependency detected involving task '' @ y \<and> (y, y) \<in> E\<^sup>+)"

text \<open>
  The state of the sort is sound for the set \<open>V\<close> of tasks being visited: the visited
  ids are closed under the edges, none of them lies on a cycle, and none is in \<open>V\<close>.
\<close>

definition sound_state :: "(string \<times> string) set \<Rightarrow> string set \<Rightarrow> 'i sort_state \<Rightarrow> bool" where
  "sound_state E V st =
     (closed_under E (visited st) \<and> (\<forall>x. x \<in> visited st \<longrightarrow> (x, x) \<notin> E\<^sup>+) \<and> visited st \<inter> V = {})"

text \<open>
  What a call of \<^verbatim>\<open>visit\<close> on a sound state returns: an error that names a task on
  a cycle, or a sound state in which the task is visited.
\<close>

definition visit_ok ::
  "(string \<times> string) set \<Rightarrow> string set \<Rightarrow> string \<Rightarrow> 'i sort_state \<Rightarrow> string + 'i sort_state \<Rightarrow> bool"
where
  "visit_ok E V x st r =
     (case r of
        Inl e \<Rightarrow> names_cycle E e
      | Inr st' \<Rightarrow> sound_state E V st' \<and> visited st \<subseteq> visited st' \<and> x \<in> visited st')"

text \<open>
  The same for the accumulator of the loops: an error that names a task on a cycle, or a
  sound state in which the ids of \<open>D\<close> are visited.
\<close>

definition deps_ok ::
  "(string \<times> string) set \<Rightarrow> string set \<Rightarrow> string set \<Rightarrow> string + 'i sort_state \<Rightarrow> bool"
where
  "deps_ok E V D acc =
     (case acc of
        Inl e \<Rightarrow> names_cycle E e
      | Inr st1 \<Rightarrow> sound_state E V st1 \<and> D \<subseteq> visited st1)"

text \<open>
  The sorted list holds no two tasks of the same id, the visited ids are the ids of the
  sorted tasks, and no visited id is being visited.
\<close>

definition sorted_distinct :: "string set \<Rightarrow> string + 'i sort_state \<Rightarrow> bool" where
  "sorted_distinct V acc =
     (case acc of
        Inl e \<Rightarrow> True
      | Inr st \<Rightarrow> distinct (map task_id (sorted_tasks st))
                  \<and> visited st = task_id ` set (sorted_tasks st)
                  \<and> visited st \<inter> V = {})"

text \<open>The state in which \<^verbatim>\<open>execute\<close> starts its loop over the sorted tasks.\<close>

definition initial_run :: "'o run_state" where
  "initial_run = \<lparr>results = [], errors = [], invoked = []\<rparr>"

text \<open>The message that the \<^verbatim>\<open>catch\<close> block pushes for a failed result.\<close>

definition error_line :: "'o task_result \<Rightarrow> string" where
  "error_line r = ''Task '' @ taskId r @ '': '' @ (case error r of None \<Rightarrow> [] | Some m \<Rightarrow> m)"

text \<open>The state in which the task at position \<open>k\<close> of the order starts.\<close>

definition state_before ::
  "(string \<rightharpoonup> ('i, 'o) agent) \<Rightarrow> 'i task list \<Rightarrow> nat \<Rightarrow> 'o run_state"
where
  "state_before agents ts k = fold (runTask agents) (take k ts) initial_run"

text \<open>The result recorded for a task whose dependencies are not met, and for any failure.\<close>

definition dependency_failure :: "'i task \<Rightarrow> 'o task_result" where
  "dependency_failure t =
     \<lparr>taskId = task_id t, success = False, result_output = None,
      error = Some (''Dependencies not satisfied for task '' @ task_id t)\<rparr>"

definition failed_result :: "'i task \<Rightarrow> string \<Rightarrow> 'o task_result" where
  "failed_result t m = \<lparr>taskId = task_id t, success = False, result_output = None, error = Some m\<rparr>"

text \<open>
  In a sorted list, every dependency of a task that names a task of the set stands before
  the task.
\<close>

definition deps_first :: "'i task list \<Rightarrow> 'i task list \<Rightarrow> bool" where
  "deps_first tasks ts =
     (\<forall>k<length ts. \<forall>d\<in>set (deps_of (ts ! k)).
        d \<in> task_id ` set tasks \<longrightarrow> d \<in> task_id ` set (take k ts))"

text \<open>
  The invariant of the sort that gives the order: the state is sound for the tasks being
  visited, the sorted list holds no id twice and only tasks of the set, and dependencies
  stand first.
\<close>

definition placed :: "'i task list \<Rightarrow> string set \<Rightarrow> string + 'i sort_state \<Rightarrow> bool" where
  "placed tasks V acc =
     (case acc of
        Inl e \<Rightarrow> True
      | Inr st \<Rightarrow> sound_state (dep_edges tasks) V st \<and> sorted_distinct V (Inr st)
                  \<and> set (sorted_tasks st) \<subseteq> set tasks \<and> deps_first tasks (sorted_tasks st))"

section \<open>Facts about rounding\<close>

lemma Math_round_of_int: "Math_round (of_int k) = k"
  by (simp add: Math_round_def floor_eq_iff)

lemma roundTo_of_int_div: "roundTo (of_int k / 10 ^ d) d = of_int k / 10 ^ d"
  by (simp add: roundTo_def Math_round_of_int)

lemma roundTo_idem: "roundTo (roundTo x d) d = roundTo x d"
  unfolding roundTo_def [of x d] by (rule roundTo_of_int_div)

lemma roundTo_mono: "x \<le> y \<Longrightarrow> roundTo x d \<le> roundTo y d"
  by (simp add: roundTo_def Math_round_def divide_right_mono floor_mono)

lemma roundTo_error: "\<bar>roundTo x 2 - x\<bar> \<le> 1 / 200"
proof -
  define y where "y = x * 100"
  define k where "k = \<lfloor>y + 1 / 2\<rfloor>"
  have "of_int k \<le> y + 1 / 2" and "y + 1 / 2 < of_int k + 1"
    using floor_correct [of "y + 1 / 2"] by (simp_all add: k_def)
  then have d: "\<bar>of_int k - y\<bar> \<le> 1 / 2"
    by linarith
  have r: "roundTo x 2 = of_int k / 100"
    by (simp add: roundTo_def Math_round_def y_def k_def)
  have e: "roundTo x 2 - x = (of_int k - y) / 100"
    unfolding r by (simp add: y_def diff_divide_distrib)
  have "\<bar>(of_int k - y) / 100\<bar> \<le> 1 / 200"
    using d by simp
  then show ?thesis
    unfolding e .
qed

lemma cents_roundTo: "cents (roundTo x 2)"
  by (simp add: cents_def roundTo_idem)

lemma cents_iff: "cents x \<longleftrightarrow> (\<exists>k::int. x = of_int k / 100)"
proof
  assume "cents x"
  then have "x = of_int (Math_round (x * 100)) / 100"
    by (simp add: cents_def roundTo_def)
  then show "\<exists>k::int. x = of_int k / 100" ..
next
  assume "\<exists>k::int. x = of_int k / 100"
  then obtain k :: int where x: "x = of_int k / 100" ..
  have "roundTo (of_int k / 100) 2 = of_int k / 100"
    using roundTo_of_int_div [of k 2] by simp
  then show "cents x"
    unfolding cents_def x .
qed

lemma cents_0: "cents 0"
  by (simp add: cents_def roundTo_0)

lemma cents_add: "cents x \<Longrightarrow> cents y \<Longrightarrow> cents (x + y)"
  unfolding cents_iff
  by (metis add_divide_distrib of_int_add)

lemma cents_minus: "cents x \<Longrightarrow> cents (- x)"
  unfolding cents_iff
  by (metis minus_divide_left of_int_minus)

lemma cents_diff: "cents x \<Longrightarrow> cents y \<Longrightarrow> cents (x - y)"
  using cents_add [of x "- y"] cents_minus [of y] by simp

lemma cents_min: "cents x \<Longrightarrow> cents y \<Longrightarrow> cents (min x y)"
  by (simp add: min_def)

lemma cents_pos_ge: "cents x \<Longrightarrow> 0 < x \<Longrightarrow> 1 / 100 \<le> x"
proof -
  assume c: "cents x" and pos: "0 < x"
  from c obtain k :: int where x: "x = of_int k / 100"
    unfolding cents_iff ..
  with pos have "0 < k"
    by (simp add: zero_less_divide_iff)
  then have "1 \<le> k" by simp
  then have "(1::rat) \<le> of_int k" by simp
  then show ?thesis
    unfolding x by (simp add: divide_right_mono)
qed

lemma roundTo_ge_cent: "1 / 100 \<le> x \<Longrightarrow> 1 / 100 \<le> roundTo x 2"
proof -
  assume "1 / 100 \<le> x"
  then have "roundTo (1 / 100) 2 \<le> roundTo x 2"
    by (rule roundTo_mono)
  moreover have "roundTo (1 / 100) 2 = 1 / 100"
    using roundTo_of_int_div [of 1 2] by simp
  ultimately show ?thesis by simp
qed

section \<open>Facts about net positions\<close>

lemma get_or_0_update: "get_or_0 (AList.update k v al) p = (if p = k then v else get_or_0 al p)"
  by (simp add: get_or_0_def update_conv')

lemma get_or_0_add_debt:
  "get_or_0 (add_debt d al) p
   = get_or_0 al p + ((if to_id d = p then amount d else 0) - (if from_id d = p then amount d else 0))"
  by (simp add: add_debt_def Let_def get_or_0_update)

lemma keys_add_debt: "fst ` set (add_debt d al) = {from_id d, to_id d} \<union> fst ` set al"
  by (auto simp: add_debt_def Let_def dom_update)

lemma distinct_add_debt: "distinct (map fst al) \<Longrightarrow> distinct (map fst (add_debt d al))"
  by (simp add: add_debt_def Let_def distinct_update)

lemma sum_snd_update:
  "sum_list (map snd (AList.update k v al)) = sum_list (map snd al) - get_or_0 al k + v"
  by (induction al) (auto simp: get_or_0_def)

lemma sum_snd_add_debt: "sum_list (map snd (add_debt d al)) = sum_list (map snd al)"
  by (simp add: add_debt_def Let_def sum_snd_update get_or_0_update)

lemma get_or_0_fold_add_debt: "get_or_0 (fold add_debt ds al) p = get_or_0 al p + net ds p"
  by (induction ds arbitrary: al) (simp_all add: net_def get_or_0_add_debt)

lemma keys_fold_add_debt: "fst ` set (fold add_debt ds al) = parties ds \<union> fst ` set al"
  by (induction ds arbitrary: al) (auto simp: parties_def keys_add_debt)

lemma distinct_fold_add_debt:
  "distinct (map fst al) \<Longrightarrow> distinct (map fst (fold add_debt ds al))"
  by (induction ds arbitrary: al) (simp_all add: distinct_add_debt)

lemma sum_snd_fold_add_debt: "sum_list (map snd (fold add_debt ds al)) = sum_list (map snd al)"
  by (induction ds arbitrary: al) (simp_all add: sum_snd_add_debt)

lemma get_or_0_Nil: "get_or_0 [] p = 0"
  by (simp add: get_or_0_def)

lemma get_or_0_accumulatePositions: "get_or_0 (accumulatePositions ds) p = net ds p"
  by (simp add: accumulatePositions_def get_or_0_fold_add_debt get_or_0_Nil)

lemma keys_accumulatePositions: "fst ` set (accumulatePositions ds) = parties ds"
  by (simp add: accumulatePositions_def keys_fold_add_debt)

lemma distinct_accumulatePositions: "distinct (map fst (accumulatePositions ds))"
  by (simp add: accumulatePositions_def distinct_fold_add_debt)

lemma sum_accumulatePositions: "sum_list (map snd (accumulatePositions ds)) = 0"
  by (simp add: accumulatePositions_def sum_snd_fold_add_debt)

lemma sum_rounded_bound:
  "\<bar>(\<Sum>(p, b)\<leftarrow>al. roundTo b 2) - sum_list (map snd al)\<bar> \<le> of_nat (length al) * (1 / 200)"
proof (induction al)
  case Nil
  show ?case by simp
next
  case (Cons pb al)
  obtain p b where pb: "pb = (p, b)" by (cases pb)
  define A where "A = (\<Sum>(p, b)\<leftarrow>al. roundTo b 2)"
  define B where "B = sum_list (map snd al)"
  have 1: "\<bar>roundTo b 2 - b\<bar> \<le> 1 / 200"
    by (rule roundTo_error)
  have 2: "\<bar>A - B\<bar> \<le> of_nat (length al) * (1 / 200)"
    using Cons.IH by (simp add: A_def B_def)
  have "\<bar>(roundTo b 2 + A) - (b + B)\<bar> \<le> \<bar>roundTo b 2 - b\<bar> + \<bar>A - B\<bar>"
    by linarith
  with 1 2 have "\<bar>(roundTo b 2 + A) - (b + B)\<bar> \<le> 1 / 200 + of_nat (length al) * (1 / 200)"
    by linarith
  then show ?case
    unfolding pb by (simp add: A_def B_def algebra_simps)
qed

lemma map_balance_calculateNetPositions:
  "map balance (calculateNetPositions ds) = map (\<lambda>(p, b). roundTo b 2) (accumulatePositions ds)"
  by (simp add: calculateNetPositions_def case_prod_unfold)

section \<open>Facts about the matching loop\<close>

text \<open>
  An invariant rule for the loop: a property of the loop state that holds at the start
  and is kept by one pass of the body holds when the loop ends.
\<close>

lemma settleLoop_invariant:
  assumes init: "I cs ds i j txs"
    and step: "\<And>cs ds i j txs c d amt cb db.
      I cs ds i j txs \<Longrightarrow> i < length cs \<Longrightarrow> j < length ds \<Longrightarrow>
      c = cs ! i \<Longrightarrow> d = ds ! j \<Longrightarrow> amt = min (balance c) (balance d) \<Longrightarrow>
      cb = roundTo (balance c - amt) 2 \<Longrightarrow> db = roundTo (balance d - amt) 2 \<Longrightarrow>
      I (cs[i := c\<lparr>balance := cb\<rparr>]) (ds[j := d\<lparr>balance := db\<rparr>])
        (if cb = 0 then i + 1 else i) (if db = 0 then j + 1 else j)
        (if amt \<ge> 1 / 100
         then txs @ [\<lparr>from_id = person d, to_id = person c, amount = roundTo amt 2\<rparr>]
         else txs)"
    and final: "\<And>cs ds i j txs. I cs ds i j txs \<Longrightarrow> \<not> (i < length cs \<and> j < length ds) \<Longrightarrow> Q txs"
  shows "Q (settleLoop cs ds i j txs)"
  using init
proof (induction cs ds i j txs rule: settleLoop.induct)
  case (1 creditors debtors i j txs)
  show ?case
  proof (cases "i < length creditors \<and> j < length debtors")
    case False
    then have "settleLoop creditors debtors i j txs = txs"
      by (subst settleLoop.simps) auto
    with final [OF "1.prems" False] show ?thesis by simp
  next
    case True
    define c where "c = creditors ! i"
    define d where "d = debtors ! j"
    define amt where "amt = min (balance c) (balance d)"
    have sel: "balance (r\<lparr>balance := v\<rparr>) = v" for r :: net_position and v
      by simp
    note IH = "1.IH" [OF True c_def d_def amt_def refl refl refl refl refl, unfolded sel]
    have "I (creditors[i := c\<lparr>balance := roundTo (balance c - amt) 2\<rparr>])
            (debtors[j := d\<lparr>balance := roundTo (balance d - amt) 2\<rparr>])
            (if roundTo (balance c - amt) 2 = 0 then i + 1 else i)
            (if roundTo (balance d - amt) 2 = 0 then j + 1 else j)
            (if amt \<ge> 1 / 100
             then txs @ [\<lparr>from_id = person d, to_id = person c, amount = roundTo amt 2\<rparr>]
             else txs)"
      using True by (intro step [OF "1.prems" _ _ c_def d_def amt_def refl refl]) simp_all
    then have "Q (settleLoop (creditors[i := c\<lparr>balance := roundTo (balance c - amt) 2\<rparr>])
            (debtors[j := d\<lparr>balance := roundTo (balance d - amt) 2\<rparr>])
            (if roundTo (balance c - amt) 2 = 0 then i + 1 else i)
            (if roundTo (balance d - amt) 2 = 0 then j + 1 else j)
            (if amt \<ge> 1 / 100
             then txs @ [\<lparr>from_id = person d, to_id = person c, amount = roundTo amt 2\<rparr>]
             else txs))"
      by (rule IH)
    moreover have "settleLoop creditors debtors i j txs
      = settleLoop (creditors[i := c\<lparr>balance := roundTo (balance c - amt) 2\<rparr>])
            (debtors[j := d\<lparr>balance := roundTo (balance d - amt) 2\<rparr>])
            (if roundTo (balance c - amt) 2 = 0 then i + 1 else i)
            (if roundTo (balance d - amt) 2 = 0 then j + 1 else j)
            (if amt \<ge> 1 / 100
             then txs @ [\<lparr>from_id = person d, to_id = person c, amount = roundTo amt 2\<rparr>]
             else txs)"
      by (subst settleLoop.simps)
         (simp only: True simp_thms if_True Let_def sel c_def d_def amt_def)
    ultimately show ?thesis by simp
  qed
qed

lemma settleLoop_amounts:
  assumes "\<forall>t\<in>set txs. 1 / 100 \<le> amount t"
  shows "\<forall>t\<in>set (settleLoop cs ds i j txs). 1 / 100 \<le> amount t"
proof (rule settleLoop_invariant
    [where I = "\<lambda>cs ds i j txs. \<forall>t\<in>set txs. 1 / 100 \<le> amount t"])
  show "\<forall>t\<in>set txs. 1 / 100 \<le> amount t" by (rule assms)
next
  fix cs ds :: "net_position list" and i j :: nat and txs :: "transaction list"
    and c d :: net_position and amt cb db :: number
  assume "\<forall>t\<in>set txs. 1 / 100 \<le> amount t"
  then show "\<forall>t\<in>set (if amt \<ge> 1 / 100
         then txs @ [\<lparr>from_id = person d, to_id = person c, amount = roundTo amt 2\<rparr>]
         else txs). 1 / 100 \<le> amount t"
    using roundTo_ge_cent [of amt] by auto
qed simp

lemma settleLoop_length:
  assumes "i < length cs \<and> j < length ds"
  shows "length (settleLoop cs ds i j txs) + 1 \<le> length txs + (length cs - i) + (length ds - j)"
proof (rule settleLoop_invariant
    [where I = "\<lambda>cs' ds' i' j' txs'. length cs' = length cs \<and> length ds' = length ds \<and>
       i' \<le> length cs \<and> j' \<le> length ds
       \<and> length txs' + (length cs - i') + (length ds - j')
           \<le> length txs + (length cs - i) + (length ds - j)
       \<and> (i' < length cs \<and> j' < length ds \<or>
           length txs' + 1 \<le> length txs + (length cs - i) + (length ds - j))"])
  show "length cs = length cs \<and> length ds = length ds \<and> i \<le> length cs \<and> j \<le> length ds
       \<and> length txs + (length cs - i) + (length ds - j)
           \<le> length txs + (length cs - i) + (length ds - j)
       \<and> (i < length cs \<and> j < length ds \<or>
           length txs + 1 \<le> length txs + (length cs - i) + (length ds - j))"
    using assms by simp
next
  fix cs' ds' :: "net_position list" and i' j' :: nat and txs' :: "transaction list"
    and c d :: net_position and amt cb db :: number
  assume I: "length cs' = length cs \<and> length ds' = length ds \<and>
       i' \<le> length cs \<and> j' \<le> length ds
       \<and> length txs' + (length cs - i') + (length ds - j')
           \<le> length txs + (length cs - i) + (length ds - j)
       \<and> (i' < length cs \<and> j' < length ds \<or>
           length txs' + 1 \<le> length txs + (length cs - i) + (length ds - j))"
    and lt: "i' < length cs'" "j' < length ds'"
    and amt: "amt = min (balance c) (balance d)"
    and cb: "cb = roundTo (balance c - amt) 2" and db: "db = roundTo (balance d - amt) 2"
  have z: "cb = 0 \<or> db = 0"
    unfolding cb db amt by (cases "balance c \<le> balance d") (simp_all add: roundTo_0)
  let ?txs = "if amt \<ge> 1 / 100
         then txs' @ [\<lparr>from_id = person d, to_id = person c, amount = roundTo amt 2\<rparr>]
         else txs'"
  have l: "length ?txs \<le> length txs' + 1" by simp
  show "length (cs'[i' := c\<lparr>balance := cb\<rparr>]) = length cs \<and>
       length (ds'[j' := d\<lparr>balance := db\<rparr>]) = length ds \<and>
       (if cb = 0 then i' + 1 else i') \<le> length cs \<and> (if db = 0 then j' + 1 else j') \<le> length ds
       \<and> length ?txs + (length cs - (if cb = 0 then i' + 1 else i'))
            + (length ds - (if db = 0 then j' + 1 else j'))
           \<le> length txs + (length cs - i) + (length ds - j)
       \<and> ((if cb = 0 then i' + 1 else i') < length cs \<and> (if db = 0 then j' + 1 else j') < length ds \<or>
           length ?txs + 1 \<le> length txs + (length cs - i) + (length ds - j))"
    using I lt z l by (auto split: if_splits)
next
  fix cs' ds' :: "net_position list" and i' j' :: nat and txs' :: "transaction list"
  assume "length cs' = length cs \<and> length ds' = length ds \<and>
       i' \<le> length cs \<and> j' \<le> length ds
       \<and> length txs' + (length cs - i') + (length ds - j')
           \<le> length txs + (length cs - i) + (length ds - j)
       \<and> (i' < length cs \<and> j' < length ds \<or>
           length txs' + 1 \<le> length txs + (length cs - i) + (length ds - j))"
    and "\<not> (i' < length cs' \<and> j' < length ds')"
  then show "length txs' + 1 \<le> length txs + (length cs - i) + (length ds - j)"
    by auto
qed

section \<open>Facts about execute\<close>

lemma update_new_key: "k \<notin> fst ` set al \<Longrightarrow> AList.update k v al = al @ [(k, v)]"
  by (induction al) auto

lemma fold_update_distinct:
  "distinct (map fst kvs) \<Longrightarrow> fst ` set kvs \<inter> fst ` set acc = {} \<Longrightarrow>
   fold (\<lambda>kv b. AList.update (fst kv) (snd kv) b) kvs acc = acc @ kvs"
proof (induction kvs arbitrary: acc)
  case Nil
  show ?case by simp
next
  case (Cons kv kvs)
  have new: "fst kv \<notin> fst ` set acc"
    using Cons.prems(2) by auto
  have "fst ` set kvs \<inter> fst ` set (acc @ [kv]) = {}"
    using Cons.prems by auto
  with Cons.IH [of "acc @ [kv]"] Cons.prems(1) show ?case
    by (simp add: update_new_key [OF new])
qed

lemma distinct_persons: "distinct (map person (calculateNetPositions ds))"
proof -
  have "map person (calculateNetPositions ds) = map fst (accumulatePositions ds)"
    by (simp add: calculateNetPositions_def case_prod_unfold)
  then show ?thesis
    by (simp add: distinct_accumulatePositions)
qed

lemma cents_balance: "np \<in> set (calculateNetPositions ds) \<Longrightarrow> cents (balance np)"
  by (auto simp: calculateNetPositions_def cents_roundTo)

lemma settleLoop_amounts_start:
  "\<forall>t\<in>set (settlePositions nps). 1 / 100 \<le> amount t"
  unfolding settlePositions_def Let_def by (rule settleLoop_amounts) simp

lemma length_filter_pos_neg:
  "length (filter (\<lambda>np. balance np > 0) nps) + length (filter (\<lambda>np. balance np < 0) nps)
   = length (filter (\<lambda>np. balance np \<noteq> 0) nps)"
  by (induction nps) auto

lemma settlePositions_length:
  "int (length (settlePositions nps)) \<le> max 0 (int (length (filter (\<lambda>np. balance np \<noteq> 0) nps)) - 1)"
proof -
  define cs where "cs = sort_key (\<lambda>np. - balance np) (filter (\<lambda>np. balance np > 0) nps)"
  define ds where "ds = sort_key (\<lambda>np. - balance np)
                      (map (\<lambda>np. np\<lparr>balance := - balance np\<rparr>)
                         (filter (\<lambda>np. balance np < 0) nps))"
  have len: "length cs + length ds = length (filter (\<lambda>np. balance np \<noteq> 0) nps)"
    using length_filter_pos_neg [of nps] by (simp add: cs_def ds_def)
  have o: "settlePositions nps = settleLoop cs ds 0 0 []"
    by (simp add: settlePositions_def cs_def ds_def)
  show ?thesis
  proof (cases "0 < length cs \<and> 0 < length ds")
    case True
    from settleLoop_length [OF True, of "[]"]
    have "length (settleLoop cs ds 0 0 []) + 1 \<le> length cs + length ds"
      by simp
    with len o show ?thesis by simp
  next
    case False
    then have "settleLoop cs ds 0 0 [] = []"
      by (subst settleLoop.simps) auto
    with o show ?thesis by simp
  qed
qed

section \<open>The loop on the store and the loop on values\<close>

lemma view_update:
  assumes "distinct refs" and "i < length refs" and "refs ! i < length store"
  shows "map ((!) (store[refs ! i := v])) refs = (map ((!) store) refs)[i := v]"
proof (rule nth_equalityI)
  show "length (map ((!) (store[refs ! i := v])) refs) = length ((map ((!) store) refs)[i := v])"
    by simp
next
  fix k
  assume "k < length (map ((!) (store[refs ! i := v])) refs)"
  then have k: "k < length refs" by simp
  show "map ((!) (store[refs ! i := v])) refs ! k = (map ((!) store) refs)[i := v] ! k"
  proof (cases "k = i")
    case True
    with assms show ?thesis by simp
  next
    case False
    with assms(1,2) k have "refs ! k \<noteq> refs ! i"
      by (simp add: nth_eq_iff_index_eq)
    with False k show ?thesis by simp
  qed
qed

lemma optimizeLoop_values:
  assumes "distinct creditors" and "\<forall>a\<in>set creditors. a < length store"
  shows "fst (optimizeLoop store creditors debtors i j txs)
         = settleLoop (map ((!) store) creditors) debtors i j txs"
  using assms
proof (induction store creditors debtors i j txs rule: optimizeLoop.induct)
  case (1 store creditors debtors i j txs)
  show ?case
  proof (cases "i < length creditors \<and> j < length debtors")
    case False
    then have "optimizeLoop store creditors debtors i j txs = (txs, store)"
      by (subst optimizeLoop.simps) auto
    moreover from False have "settleLoop (map ((!) store) creditors) debtors i j txs = txs"
      by (subst settleLoop.simps) auto
    ultimately show ?thesis by simp
  next
    case True
    define c where "c = store ! (creditors ! i)"
    define d where "d = debtors ! j"
    define amt where "amt = min (balance c) (balance d)"
    have sel: "balance (r\<lparr>balance := v\<rparr>) = v" for r :: net_position and v
      by simp
    let ?c' = "c\<lparr>balance := roundTo (balance c - amt) 2\<rparr>"
    let ?ds = "debtors[j := d\<lparr>balance := roundTo (balance d - amt) 2\<rparr>]"
    let ?i = "if roundTo (balance c - amt) 2 = 0 then i + 1 else i"
    let ?j = "if roundTo (balance d - amt) 2 = 0 then j + 1 else j"
    let ?txs = "if amt \<ge> 1 / 100
             then txs @ [\<lparr>from_id = person d, to_id = person c, amount = roundTo amt 2\<rparr>]
             else txs"
    note IH = "1.IH" [OF True c_def d_def amt_def refl refl refl refl refl, unfolded sel]
    have valid: "\<forall>a\<in>set creditors. a < length (store[creditors ! i := ?c'])"
      using "1.prems"(2) by simp
    have view: "map ((!) store) creditors ! i = c"
      using True by (simp add: c_def)
    have V: "map ((!) (store[creditors ! i := ?c'])) creditors = (map ((!) store) creditors)[i := ?c']"
      using "1.prems" True by (intro view_update) simp_all
    have L: "optimizeLoop store creditors debtors i j txs
             = optimizeLoop (store[creditors ! i := ?c']) creditors ?ds ?i ?j ?txs"
      by (subst optimizeLoop.simps)
         (simp only: True simp_thms if_True Let_def sel c_def d_def amt_def)
    have T: "i < length (map ((!) store) creditors) \<and> j < length debtors"
      using True by simp
    have R: "settleLoop (map ((!) store) creditors) debtors i j txs
             = settleLoop ((map ((!) store) creditors)[i := ?c']) ?ds ?i ?j ?txs"
      by (subst settleLoop.simps)
         (simp only: T simp_thms if_True Let_def sel view d_def amt_def)
    show ?thesis
      unfolding L R V [symmetric] by (rule IH [OF "1.prems"(1) valid])
  qed
qed

lemma insort_key_map:
  "insort_key f (g x) (map g xs) = map g (insort_key (\<lambda>a. f (g a)) x xs)"
  by (induction xs) simp_all

lemma sort_key_map: "sort_key f (map g xs) = map g (sort_key (\<lambda>a. f (g a)) xs)"
  by (induction xs) (simp_all add: insort_key_map)

lemma optimizeDebts_values:
  assumes "distinct refs" and "\<forall>a\<in>set refs. a < length store"
  shows "fst (optimizeDebts store refs) = settlePositions (map ((!) store) refs)"
proof -
  define cs where "cs = sort_key (\<lambda>a. - balance (store ! a))
                          (filter (\<lambda>a. balance (store ! a) > 0) refs)"
  have "distinct cs" and "\<forall>a\<in>set cs. a < length store"
    using assms by (simp_all add: cs_def)
  then have "fst (optimizeLoop store cs debtors 0 0 []) = settleLoop (map ((!) store) cs) debtors 0 0 []"
    for debtors
    by (rule optimizeLoop_values)
  moreover have "map ((!) store) cs
                 = sort_key (\<lambda>np. - balance np) (filter (\<lambda>np. balance np > 0) (map ((!) store) refs))"
    by (simp add: cs_def sort_key_map filter_map comp_def)
  moreover have "map (\<lambda>a. (store ! a)\<lparr>balance := - balance (store ! a)\<rparr>)
                   (filter (\<lambda>a. balance (store ! a) < 0) refs)
                 = map (\<lambda>np. np\<lparr>balance := - balance np\<rparr>)
                     (filter (\<lambda>np. balance np < 0) (map ((!) store) refs))"
    by (simp add: filter_map comp_def)
  ultimately show ?thesis
    by (simp add: optimizeDebts_def settlePositions_def cs_def)
qed

lemma filter_indices: "map ((!) xs) (filter (\<lambda>a. P (xs ! a)) [0 ..< length xs]) = filter P xs"
proof -
  have "filter P (map ((!) xs) [0 ..< length xs]) = filter P xs"
    by (simp add: map_nth)
  then show ?thesis
    by (simp add: filter_map comp_def)
qed

lemma execute_empty: "debts inp = [] \<Longrightarrow> execute inp = empty_output"
  by (simp add: execute_def empty_output_def)

lemma transactions_execute:
  assumes "debts inp \<noteq> []"
  shows "transactions (execute inp)
         = settlePositions (filter (\<lambda>np. \<bar>balance np\<bar> \<ge> min_amount inp)
             (calculateNetPositions (debts inp)))"
proof -
  define store where "store = calculateNetPositions (debts inp)"
  define refs where "refs = filter (\<lambda>a. \<bar>balance (store ! a)\<bar> \<ge> min_amount inp) [0 ..< length store]"
  have "transactions (execute inp) = fst (optimizeDebts store refs)"
    using assms
    by (simp add: execute_def Let_def min_amount_def store_def refs_def case_prod_unfold)
  also have "\<dots> = settlePositions (map ((!) store) refs)"
    by (rule optimizeDebts_values) (simp_all add: refs_def)
  also have "map ((!) store) refs = filter (\<lambda>np. \<bar>balance np\<bar> \<ge> min_amount inp) store"
    unfolding refs_def by (rule filter_indices)
  finally show ?thesis
    by (simp add: store_def)
qed

lemma optimizedTransactions_execute:
  "optimizedTransactions (execute inp) = int (length (transactions (execute inp)))"
  by (simp add: execute_def Let_def case_prod_unfold)

section \<open>Facts about the matching of whole-cent positions\<close>

lemma net_inflow_outflow: "net ts p = inflow ts p - outflow ts p"
  by (simp add: net_def inflow_def outflow_def sum_list_subtractf)

lemma inflow_snoc:
  "inflow (ts @ [t]) p = inflow ts p + (if to_id t = p then amount t else 0)"
  by (simp add: inflow_def)

lemma outflow_snoc:
  "outflow (ts @ [t]) p = outflow ts p + (if from_id t = p then amount t else 0)"
  by (simp add: outflow_def)

lemma positive_cents_sum_0:
  assumes "positive_cents xs" and "sum_list (map balance xs) = 0"
  shows "xs = []"
proof (cases xs)
  case Nil
  then show ?thesis .
next
  case (Cons x ys)
  have "0 \<le> sum_list (map balance ys)"
    using assms(1) unfolding Cons positive_cents_def
    by (intro sum_list_nonneg) (auto intro: less_imp_le)
  moreover have "0 < balance x"
    using assms(1) unfolding Cons positive_cents_def by simp
  ultimately have "0 < sum_list (map balance xs)"
    unfolding Cons by simp
  with assms(2) show ?thesis by simp
qed

lemma drop_update_here:
  "i < length xs \<Longrightarrow> drop i (xs[i := y]) = y # drop (Suc i) xs"
  by (metis Cons_nth_drop_Suc drop_update_cancel length_list_update lessI nth_list_update_eq)

lemma drop_update_next:
  "drop (Suc i) (xs[i := y]) = drop (Suc i) xs"
  by (simp add: drop_update_cancel)

text \<open>One side of one pass of the loop body: the current position gives up \<open>amt\<close>.\<close>

lemma side_step:
  assumes good: "positive_cents (drop i xs)" and i: "i < length xs" and x: "x = xs ! i"
    and amt: "cents amt" "0 < amt" "amt \<le> balance x"
    and b: "b = roundTo (balance x - amt) 2"
  defines "rest \<equiv> drop (if b = 0 then i + 1 else i) (xs[i := x\<lparr>balance := b\<rparr>])"
  shows "positive_cents rest"
    and "credit rest p = credit (drop i xs) p - (if person x = p then amt else 0)"
    and "sum_list (map balance rest) = sum_list (map balance (drop i xs)) - amt"
proof -
  have d: "drop i xs = x # drop (Suc i) xs"
    using i x by (simp add: Cons_nth_drop_Suc)
  have cx: "cents (balance x)" and tl: "positive_cents (drop (Suc i) xs)"
    using good unfolding d positive_cents_def by simp_all
  have b': "b = balance x - amt"
    using cents_diff [OF cx amt(1)] unfolding b cents_def .
  have cb: "cents b"
    unfolding b' by (rule cents_diff [OF cx amt(1)])
  have r: "rest = (if b = 0 then drop (Suc i) xs else x\<lparr>balance := b\<rparr> # drop (Suc i) xs)"
    unfolding rest_def using i by (simp add: drop_update_here drop_update_next)
  show "positive_cents rest"
    using tl cb amt(3) unfolding r b' positive_cents_def by auto
  show "credit rest p = credit (drop i xs) p - (if person x = p then amt else 0)"
    unfolding r d credit_def using b' by auto
  show "sum_list (map balance rest) = sum_list (map balance (drop i xs)) - amt"
    unfolding r d using b' by auto
qed

text \<open>
  The loop on positive whole-cent positions of equal totals pays every creditor its
  balance and takes from every debtor what it owes.
\<close>

lemma settling_step:
  assumes s: "settling C D cs ds i j txs" and i: "i < length cs" and j: "j < length ds"
    and c: "c = cs ! i" and d: "d = ds ! j" and amt: "amt = min (balance c) (balance d)"
    and cb: "cb = roundTo (balance c - amt) 2" and db: "db = roundTo (balance d - amt) 2"
  shows "settling C D (cs[i := c\<lparr>balance := cb\<rparr>]) (ds[j := d\<lparr>balance := db\<rparr>])
           (if cb = 0 then i + 1 else i) (if db = 0 then j + 1 else j)
           (if amt \<ge> 1 / 100
            then txs @ [\<lparr>from_id = person d, to_id = person c, amount = roundTo amt 2\<rparr>]
            else txs)"
proof -
  from s have gc: "positive_cents (drop i cs)" and gd: "positive_cents (drop j ds)"
    and eq: "sum_list (map balance (drop i cs)) = sum_list (map balance (drop j ds))"
    and inf: "\<And>p. inflow txs p + credit (drop i cs) p = C p"
    and outf: "\<And>p. outflow txs p + credit (drop j ds) p = D p"
    unfolding settling_def by simp_all
  have "c \<in> set (drop i cs)" and "d \<in> set (drop j ds)"
    using i j c d by (simp_all add: Cons_nth_drop_Suc [symmetric])
  with gc gd have pc: "cents (balance c)" "0 < balance c" and pd: "cents (balance d)" "0 < balance d"
    unfolding positive_cents_def by simp_all
  have ca: "cents amt" and pa: "0 < amt" and lc: "amt \<le> balance c" and ld: "amt \<le> balance d"
    unfolding amt using pc pd by (simp_all add: cents_min)
  have big: "1 / 100 \<le> amt"
    by (rule cents_pos_ge [OF ca pa])
  have ra: "roundTo amt 2 = amt"
    using ca unfolding cents_def .
  note sc = side_step [OF gc i c ca pa lc cb]
  note sd = side_step [OF gd j d ca pa ld db]
  have txs: "(if amt \<ge> 1 / 100
            then txs @ [\<lparr>from_id = person d, to_id = person c, amount = roundTo amt 2\<rparr>]
            else txs) = txs @ [\<lparr>from_id = person d, to_id = person c, amount = amt\<rparr>]"
    using big ra by simp
  show ?thesis
    unfolding settling_def txs
  proof (intro conjI allI)
    show "positive_cents (drop (if cb = 0 then i + 1 else i) (cs[i := c\<lparr>balance := cb\<rparr>]))"
      by (rule sc(1))
    show "positive_cents (drop (if db = 0 then j + 1 else j) (ds[j := d\<lparr>balance := db\<rparr>]))"
      by (rule sd(1))
    show "sum_list (map balance (drop (if cb = 0 then i + 1 else i) (cs[i := c\<lparr>balance := cb\<rparr>])))
          = sum_list (map balance (drop (if db = 0 then j + 1 else j) (ds[j := d\<lparr>balance := db\<rparr>])))"
      unfolding sc(3) sd(3) eq ..
    fix p
    show "inflow (txs @ [\<lparr>from_id = person d, to_id = person c, amount = amt\<rparr>]) p
          + credit (drop (if cb = 0 then i + 1 else i) (cs[i := c\<lparr>balance := cb\<rparr>])) p = C p"
      unfolding sc(2) inflow_snoc using inf [of p] by simp
    show "outflow (txs @ [\<lparr>from_id = person d, to_id = person c, amount = amt\<rparr>]) p
          + credit (drop (if db = 0 then j + 1 else j) (ds[j := d\<lparr>balance := db\<rparr>])) p = D p"
      unfolding sd(2) outflow_snoc using outf [of p] by simp
  qed
qed

lemma settling_final:
  assumes s: "settling C D cs ds i j txs" and e: "\<not> (i < length cs \<and> j < length ds)"
  shows "\<forall>p. inflow txs p = C p \<and> outflow txs p = D p"
proof -
  from s have gc: "positive_cents (drop i cs)" and gd: "positive_cents (drop j ds)"
    and eq: "sum_list (map balance (drop i cs)) = sum_list (map balance (drop j ds))"
    and inf: "\<And>p. inflow txs p + credit (drop i cs) p = C p"
    and outf: "\<And>p. outflow txs p + credit (drop j ds) p = D p"
    unfolding settling_def by simp_all
  from e have "drop i cs = [] \<or> drop j ds = []"
    by auto
  then have "sum_list (map balance (drop i cs)) = 0 \<and> sum_list (map balance (drop j ds)) = 0"
    using eq by auto
  then have "drop i cs = []" and "drop j ds = []"
    using positive_cents_sum_0 [OF gc] positive_cents_sum_0 [OF gd] by simp_all
  then show ?thesis
    using inf outf by (simp add: credit_def)
qed

lemma settleLoop_settles:
  assumes "positive_cents cs" and "positive_cents ds"
    and "sum_list (map balance cs) = sum_list (map balance ds)"
  shows "\<forall>p. inflow (settleLoop cs ds 0 0 []) p = credit cs p
             \<and> outflow (settleLoop cs ds 0 0 []) p = credit ds p"
proof (rule settleLoop_invariant [where I = "settling (credit cs) (credit ds)"])
  show "settling (credit cs) (credit ds) cs ds 0 0 []"
    using assms by (simp add: settling_def inflow_def outflow_def)
next
  fix cs' ds' :: "net_position list" and i j :: nat and txs :: "transaction list"
    and c d :: net_position and amt cb db :: number
  assume "settling (credit cs) (credit ds) cs' ds' i j txs" "i < length cs'" "j < length ds'"
    "c = cs' ! i" "d = ds' ! j" "amt = min (balance c) (balance d)"
    "cb = roundTo (balance c - amt) 2" "db = roundTo (balance d - amt) 2"
  then show "settling (credit cs) (credit ds) (cs'[i := c\<lparr>balance := cb\<rparr>]) (ds'[j := d\<lparr>balance := db\<rparr>])
           (if cb = 0 then i + 1 else i) (if db = 0 then j + 1 else j)
           (if amt \<ge> 1 / 100
            then txs @ [\<lparr>from_id = person d, to_id = person c, amount = roundTo amt 2\<rparr>]
            else txs)"
    by (rule settling_step)
next
  fix cs' ds' :: "net_position list" and i j :: nat and txs :: "transaction list"
  assume "settling (credit cs) (credit ds) cs' ds' i j txs" "\<not> (i < length cs' \<and> j < length ds')"
  then show "\<forall>p. inflow txs p = credit cs p \<and> outflow txs p = credit ds p"
    by (rule settling_final)
qed

section \<open>Facts about the replay of the transactions\<close>

lemma debt_rebuild: "\<lparr>from_id = from_id t, to_id = to_id t, amount = amount t\<rparr> = (t::debt)"
  by simp

lemma get_or_0_map_values:
  assumes "f 0 = 0"
  shows "get_or_0 (map (\<lambda>(p, b). (p, f b)) al) p = f (get_or_0 al p)"
  using assms by (induction al) (auto simp: get_or_0_def)

lemma replayBalances_eq:
  "replayBalances ts = map (\<lambda>(p, b). (p, roundTo b 2)) (accumulatePositions ts)"
proof -
  define kvs where "kvs = map (\<lambda>(p, b). (p, roundTo b 2)) (accumulatePositions ts)"
  have 1: "fold (\<lambda>np b. AList.update (person np) (balance np) b) (calculateNetPositions ts) []
        = fold (\<lambda>kv b. AList.update (fst kv) (snd kv) b) kvs []"
    by (simp add: kvs_def calculateNetPositions_def fold_map comp_def case_prod_unfold)
  have "map fst kvs = map fst (accumulatePositions ts)"
    by (simp add: kvs_def comp_def case_prod_unfold)
  then have 2: "distinct (map fst kvs)"
    by (simp add: distinct_accumulatePositions)
  have "replayBalances ts
        = fold (\<lambda>np b. AList.update (person np) (balance np) b) (calculateNetPositions ts) []"
    by (simp add: replayBalances_def debt_rebuild)
  also have "\<dots> = [] @ kvs"
    unfolding 1 by (rule fold_update_distinct [OF 2]) simp
  finally show ?thesis
    by (simp add: kvs_def)
qed

lemma get_or_0_replayBalances: "get_or_0 (replayBalances ts) p = roundTo (net ts p) 2"
  unfolding replayBalances_eq
  by (simp add: get_or_0_map_values roundTo_0 get_or_0_accumulatePositions)

lemma checkBalances_ok:
  "\<forall>(p, b)\<in>set bals. \<bar>b - get_or_0 nb p\<bar> \<le> 1 / 100 \<Longrightarrow> checkBalances nb bals = Inr ()"
  by (induction bals) (auto simp: Let_def)

section \<open>Facts about positions with distinct parties\<close>

lemma sum_list_map_mset:
  fixes g :: "'a \<Rightarrow> number"
  shows "mset xs = mset ys \<Longrightarrow> sum_list (map g xs) = sum_list (map g ys)"
proof -
  assume "mset xs = mset ys"
  then have "sum_mset (mset (map g xs)) = sum_mset (mset (map g ys))"
    by simp
  then show ?thesis
    by (simp only: sum_mset_sum_list)
qed

lemma credit_sort_key: "credit (sort_key f xs) p = credit xs p"
  unfolding credit_def by (rule sum_list_map_mset) simp

lemma sum_balance_sort_key: "sum_list (map balance (sort_key f xs)) = sum_list (map balance xs)"
  by (rule sum_list_map_mset) simp

lemma positive_cents_sort_key: "positive_cents (sort_key f xs) = positive_cents xs"
  by (simp add: positive_cents_def)

lemma credit_absent: "p \<notin> person ` set xs \<Longrightarrow> credit xs p = 0"
  by (induction xs) (auto simp: credit_def)

lemma credit_distinct:
  "distinct (map person xs) \<Longrightarrow> x \<in> set xs \<Longrightarrow> credit xs (person x) = balance x"
proof (induction xs)
  case Nil
  then show ?case by simp
next
  case (Cons y ys)
  show ?case
  proof (cases "x = y")
    case True
    have "person y \<notin> person ` set ys"
      using Cons.prems(1) by simp
    then have "credit ys (person y) = 0"
      by (rule credit_absent)
    then show ?thesis
      unfolding True by (simp add: credit_def)
  next
    case False
    with Cons.prems have x: "x \<in> set ys" and "person y \<noteq> person x"
      by auto
    with Cons show ?thesis
      by (simp add: credit_def)
  qed
qed

lemma credit_filter:
  "credit (filter P xs) p = (\<Sum>x\<leftarrow>xs. if P x \<and> person x = p then balance x else 0)"
  by (induction xs) (auto simp: credit_def)

lemma credit_negated:
  "credit (map (\<lambda>np. np\<lparr>balance := - balance np\<rparr>) xs) p = - credit xs p"
  by (induction xs) (auto simp: credit_def)

lemma credit_split:
  "credit (filter (\<lambda>np. balance np > 0) xs) p - credit (map (\<lambda>np. np\<lparr>balance := - balance np\<rparr>) (filter (\<lambda>np. balance np < 0) xs)) p
   = credit xs p"
  unfolding credit_negated by (induction xs) (auto simp: credit_def)

lemma sum_balance_split:
  "sum_list (map balance (filter (\<lambda>np. balance np > 0) xs))
   - sum_list (map balance (map (\<lambda>np. np\<lparr>balance := - balance np\<rparr>) (filter (\<lambda>np. balance np < 0) xs)))
   = sum_list (map balance xs)"
  by (induction xs) auto

section \<open>Facts about whole-cent debts\<close>

lemma update_entry:
  "(q, b) \<in> set (AList.update k v al) \<Longrightarrow> (q, b) \<in> set al \<or> (q = k \<and> b = v)"
  by (induction al) (auto split: if_splits)

lemma cents_get_or_0:
  "\<forall>(q, b)\<in>set al. cents b \<Longrightarrow> cents (get_or_0 al k)"
  by (auto simp: get_or_0_def cents_0 split: option.splits dest: map_of_SomeD)

lemma cents_add_debt:
  assumes al: "\<forall>(q, b)\<in>set al. cents b" and d: "cents (amount d)"
  shows "\<forall>(q, b)\<in>set (add_debt d al). cents b"
proof -
  define al1 where "al1 = AList.update (from_id d) (get_or_0 al (from_id d) - amount d) al"
  have 1: "\<forall>(q, b)\<in>set al1. cents b"
    unfolding al1_def using al cents_diff [OF cents_get_or_0 [OF al] d]
    by (auto dest!: update_entry)
  have "add_debt d al = AList.update (to_id d) (get_or_0 al1 (to_id d) + amount d) al1"
    by (simp add: add_debt_def al1_def Let_def)
  then show ?thesis
    using 1 cents_add [OF cents_get_or_0 [OF 1] d]
    by (auto dest!: update_entry)
qed

lemma cents_fold_add_debt:
  "\<forall>(q, b)\<in>set al. cents b \<Longrightarrow> \<forall>d\<in>set ds. cents (amount d) \<Longrightarrow>
   \<forall>(q, b)\<in>set (fold add_debt ds al). cents b"
proof (induction ds arbitrary: al)
  case Nil
  then show ?case by simp
next
  case (Cons d ds)
  have "\<forall>(q, b)\<in>set (add_debt d al). cents b"
    using Cons.prems by (intro cents_add_debt) simp_all
  with Cons show ?case by simp
qed

lemma calculateNetPositions_cents:
  assumes "\<forall>d\<in>set ds. cents (amount d)"
  shows "calculateNetPositions ds = map (\<lambda>(p, b). \<lparr>person = p, balance = b\<rparr>) (accumulatePositions ds)"
proof -
  have "\<forall>(q, b)\<in>set (accumulatePositions ds). cents b"
    unfolding accumulatePositions_def using assms by (intro cents_fold_add_debt) simp_all
  then show ?thesis
    by (auto simp: calculateNetPositions_def cents_def)
qed

lemma sum_calculateNetPositions_cents:
  assumes "\<forall>d\<in>set ds. cents (amount d)"
  shows "sum_list (map balance (calculateNetPositions ds)) = 0"
proof -
  have "map balance (calculateNetPositions ds) = map snd (accumulatePositions ds)"
    unfolding calculateNetPositions_cents [OF assms] by (simp add: comp_def case_prod_unfold)
  then show ?thesis
    by (simp add: sum_accumulatePositions)
qed

text \<open>
  The transactions computed from positions with distinct parties and whole-cent balances
  that sum to \<open>0\<close> give every party its balance.
\<close>

lemma settlePositions_net:
  assumes c: "\<forall>np\<in>set nps. cents (balance np)" and z: "sum_list (map balance nps) = 0"
  shows "net (settlePositions nps) p = credit nps p"
proof -
  define pos where "pos = filter (\<lambda>np. balance np > 0) nps"
  define neg where "neg = map (\<lambda>np. np\<lparr>balance := - balance np\<rparr>) (filter (\<lambda>np. balance np < 0) nps)"
  define cs where "cs = sort_key (\<lambda>np. - balance np) pos"
  define ds where "ds = sort_key (\<lambda>np. - balance np) neg"
  have o: "settlePositions nps = settleLoop cs ds 0 0 []"
    by (simp add: settlePositions_def cs_def ds_def pos_def neg_def)
  have "positive_cents pos"
    using c by (auto simp: positive_cents_def pos_def)
  then have pc: "positive_cents cs"
    by (simp add: cs_def positive_cents_sort_key)
  have "positive_cents neg"
    using c by (auto simp: positive_cents_def neg_def cents_minus)
  then have pd: "positive_cents ds"
    by (simp add: ds_def positive_cents_sort_key)
  have "sum_list (map balance pos) - sum_list (map balance neg) = 0"
    unfolding pos_def neg_def sum_balance_split by (rule z)
  then have eq: "sum_list (map balance cs) = sum_list (map balance ds)"
    by (simp add: cs_def ds_def sum_balance_sort_key)
  from settleLoop_settles [OF pc pd eq]
  have "net (settlePositions nps) p = credit cs p - credit ds p"
    by (simp add: net_inflow_outflow o)
  also have "\<dots> = credit pos p - credit neg p"
    by (simp add: cs_def ds_def credit_sort_key)
  also have "\<dots> = credit nps p"
    unfolding pos_def neg_def by (rule credit_split)
  finally show ?thesis .
qed

lemma filter_kept:
  assumes "\<forall>np\<in>set nps. balance np = 0 \<or> m \<le> \<bar>balance np\<bar>"
  shows "settlePositions (filter (\<lambda>np. \<bar>balance np\<bar> \<ge> m) nps) = settlePositions nps"
proof -
  have "filter (\<lambda>np. balance np > 0) (filter (\<lambda>np. \<bar>balance np\<bar> \<ge> m) nps)
        = filter (\<lambda>np. balance np > 0) nps"
    unfolding filter_filter using assms by (intro filter_cong) auto
  moreover have "filter (\<lambda>np. balance np < 0) (filter (\<lambda>np. \<bar>balance np\<bar> \<ge> m) nps)
        = filter (\<lambda>np. balance np < 0) nps"
    unfolding filter_filter using assms by (intro filter_cong) auto
  ultimately show ?thesis
    by (simp add: settlePositions_def)
qed

section \<open>The matching in exact arithmetic\<close>

text \<open>
  With numbers taken as exact, when every amount is a whole number of cents and the
  minimum amount forgives no party (every net balance is \<open>0\<close> or at least the minimum
  amount in magnitude), replaying the transactions of \<^verbatim>\<open>execute\<close> as debts and
  recomputing the net positions gives every party the net balance it has in the input
  debts.
\<close>

lemma exact_replay_without_forgiveness:
  assumes amounts: "\<forall>d\<in>set (debts inp). cents (amount d)"
    and kept: "\<forall>np\<in>set (calculateNetPositions (debts inp)).
                 balance np = 0 \<or> min_amount inp \<le> \<bar>balance np\<bar>"
  shows "\<forall>np\<in>set (calculateNetPositions (debts inp)).
           get_or_0 (replayBalances (transactions (execute inp))) (person np) = balance np"
proof (cases "debts inp = []")
  case True
  then show ?thesis
    by (simp add: calculateNetPositions_def accumulatePositions_def)
next
  case False
  define nps where "nps = calculateNetPositions (debts inp)"
  have c: "\<forall>np\<in>set nps. cents (balance np)"
    unfolding nps_def by (simp add: cents_balance)
  have z: "sum_list (map balance nps) = 0"
    unfolding nps_def by (rule sum_calculateNetPositions_cents [OF amounts])
  have t: "transactions (execute inp) = settlePositions nps"
    unfolding transactions_execute [OF False] nps_def [symmetric]
    using kept [folded nps_def] by (rule filter_kept)
  have "get_or_0 (replayBalances (settlePositions nps)) (person np) = balance np"
    if np: "np \<in> set nps" for np
  proof -
    have "net (settlePositions nps) (person np) = balance np"
      unfolding settlePositions_net [OF c z]
      using distinct_persons [of "debts inp"] np unfolding nps_def by (rule credit_distinct)
    moreover have "roundTo (balance np) 2 = balance np"
      using c np by (simp add: cents_def)
    ultimately show ?thesis
      by (simp add: get_or_0_replayBalances)
  qed
  then show ?thesis
    unfolding t nps_def by simp
qed

section \<open>Facts about the Gini coefficient\<close>





















section \<open>Facts about the topological sort\<close>

lemma visit_unfold:
  "visit tasks visiting t st =
     (if task_id t \<in> visited st then Inr st
      else if task_id t \<in> visiting
      then Inl (''Circular dependency detected involving task '' @ task_id t)
      else
        (case fold (visit_dep tasks (insert (task_id t) visiting)) (deps_of t) (Inr st) of
           Inl e \<Rightarrow> Inl e
         | Inr st2 \<Rightarrow>
             Inr (st2\<lparr>visited := insert (task_id t) (visited st2),
                      sorted_tasks := sorted_tasks st2 @ [t]\<rparr>)))"
  by (subst visit.simps) (simp only: visit_dep_def [abs_def])

lemma topologicalSort_unfold:
  "topologicalSort tasks =
     (case fold (\<lambda>t acc. case acc of Inl e \<Rightarrow> Inl e | Inr st \<Rightarrow> visit tasks {} t st)
             tasks (Inr \<lparr>sorted_tasks = [], visited = {}\<rparr>) of
        Inl e \<Rightarrow> Inl e
      | Inr st \<Rightarrow> Inr (sorted_tasks st))"
  by (simp add: topologicalSort_def)

lemma closed_under_rtrancl:
  assumes "closed_under E S" and "(x, y) \<in> E\<^sup>*" and "x \<in> S"
  shows "y \<in> S"
  using assms(2,3)
proof (induction rule: rtrancl_induct)
  case base
  then show ?case .
next
  case (step y z)
  with assms(1) show ?case
    unfolding closed_under_def by blast
qed

lemma find_task_Some:
  "find (\<lambda>u. task_id u = d) tasks = Some u \<Longrightarrow> u \<in> set tasks \<and> task_id u = d"
  by (auto simp: find_Some_iff)

lemma find_task_None:
  "find (\<lambda>u. task_id u = d) tasks = None \<Longrightarrow> d \<notin> task_id ` set tasks"
  by (auto simp: find_None_iff)

lemma dep_edges_of_task:
  assumes "distinct (map task_id tasks)" and "t \<in> set tasks" and "(task_id t, y) \<in> dep_edges tasks"
  shows "y \<in> set (deps_of t) \<and> y \<in> task_id ` set tasks"
proof -
  from assms(3) obtain u where u: "u \<in> set tasks" "task_id u = task_id t"
    "y \<in> set (deps_of u)" "y \<in> task_id ` set tasks"
    unfolding dep_edges_def by auto
  from assms(1,2) u(1,2) have "u = t"
    by (simp add: distinct_map inj_on_def)
  with u show ?thesis by simp
qed

lemma dep_edges_intro:
  "t \<in> set tasks \<Longrightarrow> d \<in> set (deps_of t) \<Longrightarrow> d \<in> task_id ` set tasks \<Longrightarrow>
   (task_id t, d) \<in> dep_edges tasks"
  unfolding dep_edges_def by blast

text \<open>Adding a task whose dependencies are all visited keeps the state sound.\<close>

lemma sound_state_finish:
  assumes dist: "distinct (map task_id tasks)" and t: "t \<in> set tasks"
    and s2: "sound_state (dep_edges tasks) (insert (task_id t) V) st2"
    and deps: "\<forall>d. d \<in> set (deps_of t) \<and> d \<in> task_id ` set tasks \<longrightarrow> d \<in> visited st2"
    and nv: "task_id t \<notin> V"
  shows "sound_state (dep_edges tasks) V
           (st2\<lparr>visited := insert (task_id t) (visited st2), sorted_tasks := sorted_tasks st2 @ [t]\<rparr>)"
proof -
  let ?E = "dep_edges tasks"
  from s2 have cl: "closed_under ?E (visited st2)"
    and ac: "\<And>x. x \<in> visited st2 \<Longrightarrow> (x, x) \<notin> ?E\<^sup>+"
    and dj: "visited st2 \<inter> insert (task_id t) V = {}"
    unfolding sound_state_def by blast+
  have succ: "y \<in> visited st2" if "(task_id t, y) \<in> ?E" for y
    using dep_edges_of_task [OF dist t that] deps by blast
  have cl': "closed_under ?E (insert (task_id t) (visited st2))"
    unfolding closed_under_def using cl succ unfolding closed_under_def by blast
  have "(task_id t, task_id t) \<notin> ?E\<^sup>+"
  proof
    assume "(task_id t, task_id t) \<in> ?E\<^sup>+"
    then obtain y where y: "(task_id t, y) \<in> ?E" "(y, task_id t) \<in> ?E\<^sup>*"
      by (blast dest: tranclD)
    from closed_under_rtrancl [OF cl y(2) succ [OF y(1)]] have "task_id t \<in> visited st2" .
    with dj show False by blast
  qed
  with ac have ac': "\<forall>x. x \<in> insert (task_id t) (visited st2) \<longrightarrow> (x, x) \<notin> ?E\<^sup>+"
    by blast
  have "insert (task_id t) (visited st2) \<inter> V = {}"
    using dj nv by blast
  with cl' ac' show ?thesis
    unfolding sound_state_def by simp
qed

text \<open>
  A call of \<^verbatim>\<open>visit\<close> on a sound state returns an error that names a task on a
  cycle, or a sound state in which the task is visited.
\<close>

lemma deps_ok_fold:
  assumes step: "\<And>d acc D. d \<in> set ds \<Longrightarrow> deps_ok E V D acc \<Longrightarrow> deps_ok E V (D \<union> G d) (f d acc)"
    and acc: "deps_ok E V D acc"
  shows "deps_ok E V (D \<union> (\<Union>d\<in>set ds. G d)) (fold f ds acc)"
  using step acc
proof (induction ds arbitrary: acc D)
  case Nil
  then show ?case by simp
next
  case (Cons d ds)
  have 1: "deps_ok E V (D \<union> G d) (f d acc)"
    by (rule Cons.prems(1)) (simp_all add: Cons.prems(2))
  have "deps_ok E V ((D \<union> G d) \<union> (\<Union>d\<in>set ds. G d)) (fold f ds (f d acc))"
    by (rule Cons.IH [OF _ 1]) (rule Cons.prems(1), simp_all)
  then show ?case
    by (simp add: Un_assoc)
qed

lemma visit_sound:
  assumes "distinct (map task_id tasks)" and "t \<in> set tasks"
    and "sound_state (dep_edges tasks) V st"
    and "\<forall>v. v \<in> V \<longrightarrow> (v, task_id t) \<in> (dep_edges tasks)\<^sup>+"
  shows "visit_ok (dep_edges tasks) V (task_id t) st (visit tasks V t st)"
  using assms
proof (induction tasks V t st rule: visit.induct)
  case (1 tasks V t st)
  let ?E = "dep_edges tasks"
  let ?V = "insert (task_id t) V"
  note dist = "1.prems"(1) and t = "1.prems"(2) and snd = "1.prems"(3) and path = "1.prems"(4)
  show ?case
  proof (cases "task_id t \<in> visited st")
    case True
    then have "visit tasks V t st = Inr st"
      by (subst visit_unfold) simp
    with snd True show ?thesis
      by (simp add: visit_ok_def)
  next
    case nvis: False
    show ?thesis
    proof (cases "task_id t \<in> V")
      case True
      with nvis have "visit tasks V t st
                      = Inl (''Circular dependency detected involving task '' @ task_id t)"
        by (subst visit_unfold) simp
      moreover have "(task_id t, task_id t) \<in> ?E\<^sup>+"
        using path True by blast
      ultimately show ?thesis
        unfolding visit_ok_def names_cycle_def by auto
    next
      case nv: False
      define G where "G = (\<lambda>d. if d \<in> task_id ` set tasks then {d} else {})"
      have start: "deps_ok ?E ?V (visited st) (Inr st)"
        using snd nvis unfolding deps_ok_def sound_state_def by simp
      have step: "deps_ok ?E ?V (D \<union> G d) (visit_dep tasks ?V d acc)"
        if d: "d \<in> set (deps_of t)" and acc: "deps_ok ?E ?V D acc" for d acc D
      proof (cases acc)
        case (Inl e)
        with acc show ?thesis
          by (simp add: deps_ok_def visit_dep_def)
      next
        case (Inr st1)
        with acc have s1: "sound_state ?E ?V st1" and D: "D \<subseteq> visited st1"
          by (simp_all add: deps_ok_def)
        show ?thesis
        proof (cases "find (\<lambda>u. task_id u = d) tasks")
          case None
          then have "G d = {}"
            using find_task_None [OF None] by (simp add: G_def)
          with None Inr acc show ?thesis
            by (simp add: visit_dep_def)
        next
          case (Some u)
          note u = find_task_Some [OF Some]
          have e: "(task_id t, d) \<in> ?E"
            using t d u by (intro dep_edges_intro) auto
          have p: "\<forall>v. v \<in> ?V \<longrightarrow> (v, task_id u) \<in> ?E\<^sup>+"
          proof (intro allI impI)
            fix v
            assume "v \<in> ?V"
            then consider "v = task_id t" | "v \<in> V" by blast
            then show "(v, task_id u) \<in> ?E\<^sup>+"
            proof cases
              case 1
              with e u show ?thesis by blast
            next
              case 2
              with path have "(v, task_id t) \<in> ?E\<^sup>+" by blast
              with e u show ?thesis by (blast intro: trancl_into_trancl)
            qed
          qed
          have "visit_ok ?E ?V (task_id u) st1 (visit tasks ?V u st1)"
            using nvis nv d Some dist u s1 p by (intro "1.IH") simp_all
          moreover have "G d \<subseteq> {task_id u}"
            using u by (simp add: G_def)
          ultimately have "deps_ok ?E ?V (D \<union> G d) (visit tasks ?V u st1)"
            using D unfolding visit_ok_def deps_ok_def by (auto split: sum.splits)
          with Some Inr show ?thesis
            by (simp add: visit_dep_def)
        qed
      qed
      have fin: "deps_ok ?E ?V (visited st \<union> (\<Union>d\<in>set (deps_of t). G d))
                   (fold (visit_dep tasks ?V) (deps_of t) (Inr st))"
        using step start by (rule deps_ok_fold)
      show ?thesis
      proof (cases "fold (visit_dep tasks ?V) (deps_of t) (Inr st)")
        case (Inl e)
        with nvis nv have "visit tasks V t st = Inl e"
          by (subst visit_unfold) simp
        with fin Inl show ?thesis
          by (simp add: deps_ok_def visit_ok_def)
      next
        case (Inr st2)
        let ?st' = "st2\<lparr>visited := insert (task_id t) (visited st2),
                       sorted_tasks := sorted_tasks st2 @ [t]\<rparr>"
        from nvis nv Inr have r: "visit tasks V t st = Inr ?st'"
          by (subst visit_unfold) simp
        from fin Inr have s2: "sound_state ?E ?V st2"
          and sub: "visited st \<union> (\<Union>d\<in>set (deps_of t). G d) \<subseteq> visited st2"
          by (simp_all add: deps_ok_def)
        have deps: "\<forall>d. d \<in> set (deps_of t) \<and> d \<in> task_id ` set tasks \<longrightarrow> d \<in> visited st2"
          using sub unfolding G_def by (auto split: if_splits)
        have "sound_state ?E V ?st'"
          by (rule sound_state_finish [OF dist t s2 deps nv])
        moreover have "visited st \<subseteq> visited ?st'"
          using sub by auto
        ultimately show ?thesis
          unfolding r visit_ok_def by simp
      qed
    qed
  qed
qed

lemma sort_loop_sound:
  assumes dist: "distinct (map task_id tasks)"
  shows "deps_ok (dep_edges tasks) {} (task_id ` set tasks)
           (fold (\<lambda>t acc. case acc of Inl e \<Rightarrow> Inl e | Inr st \<Rightarrow> visit tasks {} t st)
              tasks (Inr \<lparr>sorted_tasks = [], visited = {}\<rparr>))"
proof -
  let ?E = "dep_edges tasks"
  let ?f = "\<lambda>t acc. case acc of Inl e \<Rightarrow> Inl e | Inr st \<Rightarrow> visit tasks {} t st"
  let ?r = "fold ?f tasks (Inr \<lparr>sorted_tasks = [], visited = {}\<rparr>)"
  have start: "deps_ok ?E {} {} (Inr \<lparr>sorted_tasks = [], visited = {}\<rparr>)"
    by (simp add: deps_ok_def sound_state_def closed_under_def)
  have step: "deps_ok ?E {} (D \<union> {task_id t}) (?f t acc)"
    if t: "t \<in> set tasks" and acc: "deps_ok ?E {} D acc" for t acc D
  proof (cases acc)
    case (Inl e)
    with acc show ?thesis
      by (simp add: deps_ok_def)
  next
    case (Inr st)
    with acc have s: "sound_state ?E {} st" and D: "D \<subseteq> visited st"
      by (simp_all add: deps_ok_def)
    have "visit_ok ?E {} (task_id t) st (visit tasks {} t st)"
      by (rule visit_sound [OF dist t s]) simp
    then have "deps_ok ?E {} (D \<union> {task_id t}) (visit tasks {} t st)"
      using D unfolding visit_ok_def deps_ok_def by (auto split: sum.splits)
    with Inr show ?thesis by simp
  qed
  have "deps_ok ?E {} ({} \<union> (\<Union>t\<in>set tasks. {task_id t})) ?r"
    using step start by (rule deps_ok_fold)
  moreover have "{} \<union> (\<Union>t\<in>set tasks. {task_id t}) = task_id ` set tasks"
    by auto
  ultimately show ?thesis by simp
qed

text \<open>
  With distinct ids, the sort throws exactly on the cyclic task sets, and its error names
  a task on a cycle.
\<close>

lemma topologicalSort_error:
  assumes "distinct (map task_id tasks)" and "topologicalSort tasks = Inl e"
  shows "names_cycle (dep_edges tasks) e"
  using sort_loop_sound [OF assms(1)] assms(2)
  by (auto simp: topologicalSort_unfold deps_ok_def split: sum.splits)

lemma topologicalSort_cyclic:
  assumes dist: "distinct (map task_id tasks)" and cyc: "(x, x) \<in> (dep_edges tasks)\<^sup>+"
  shows "\<exists>e. topologicalSort tasks = Inl e \<and> names_cycle (dep_edges tasks) e"
proof (cases "topologicalSort tasks")
  case (Inl e)
  with topologicalSort_error [OF dist Inl] show ?thesis by simp
next
  case (Inr ts)
  let ?E = "dep_edges tasks"
  from Inr obtain st where
    "fold (\<lambda>t acc. case acc of Inl e \<Rightarrow> Inl e | Inr st \<Rightarrow> visit tasks {} t st)
       tasks (Inr \<lparr>sorted_tasks = [], visited = {}\<rparr>) = Inr st"
    by (auto simp: topologicalSort_unfold split: sum.splits)
  with sort_loop_sound [OF dist]
  have s: "sound_state ?E {} st" and all: "task_id ` set tasks \<subseteq> visited st"
    by (auto simp: deps_ok_def)
  from cyc obtain y where "(x, y) \<in> ?E"
    by (blast dest: tranclD)
  then have "x \<in> task_id ` set tasks"
    unfolding dep_edges_def by blast
  with all have "x \<in> visited st" by blast
  with s have "(x, x) \<notin> ?E\<^sup>+"
    unfolding sound_state_def by blast
  with cyc show ?thesis by blast
qed

lemma topologicalSort_acyclic:
  assumes "distinct (map task_id tasks)" and "\<forall>x. (x, x) \<notin> (dep_edges tasks)\<^sup>+"
  shows "\<exists>ts. topologicalSort tasks = Inr ts"
proof (cases "topologicalSort tasks")
  case (Inl e)
  from topologicalSort_error [OF assms(1) Inl] assms(2) show ?thesis
    unfolding names_cycle_def by blast
next
  case (Inr ts)
  then show ?thesis by simp
qed

text \<open>
  The sorted list never holds two tasks of the same id: a task is appended only while
  its id is being visited, and no visited id is being visited.
\<close>

lemma visit_distinct:
  "sorted_distinct V (Inr st) \<Longrightarrow> sorted_distinct V (visit tasks V t st)"
proof (induction tasks V t st rule: visit.induct)
  case (1 tasks V t st)
  let ?V = "insert (task_id t) V"
  show ?case
  proof (cases "task_id t \<in> visited st \<or> task_id t \<in> V")
    case True
    then have "visit tasks V t st
               = (if task_id t \<in> visited st then Inr st
                  else Inl (''Circular dependency detected involving task '' @ task_id t))"
      by (subst visit_unfold) auto
    with "1.prems" show ?thesis
      by (auto simp: sorted_distinct_def)
  next
    case False
    then have nvis: "task_id t \<notin> visited st" and nv: "task_id t \<notin> V"
      by simp_all
    have start: "sorted_distinct ?V (Inr st)"
      using "1.prems" nvis by (auto simp: sorted_distinct_def)
    have step: "sorted_distinct ?V (visit_dep tasks ?V d acc)"
      if "d \<in> set (deps_of t)" and "sorted_distinct ?V acc" for d acc
    proof (cases acc)
      case (Inl e)
      then show ?thesis
        by (simp add: visit_dep_def sorted_distinct_def)
    next
      case (Inr st1)
      show ?thesis
      proof (cases "find (\<lambda>u. task_id u = d) tasks")
        case None
        with Inr that(2) show ?thesis
          by (simp add: visit_dep_def)
      next
        case (Some u)
        have "sorted_distinct ?V (visit tasks ?V u st1)"
          using nvis nv that Some Inr by (intro "1.IH") simp_all
        with Some Inr show ?thesis
          by (simp add: visit_dep_def)
      qed
    qed
    have fin: "sorted_distinct ?V (fold (visit_dep tasks ?V) (deps_of t) (Inr st))"
      by (rule fold_invariant [where Q = "\<lambda>d. d \<in> set (deps_of t)"]) (simp_all add: start step)
    show ?thesis
    proof (cases "fold (visit_dep tasks ?V) (deps_of t) (Inr st)")
      case (Inl e)
      with nvis nv have "visit tasks V t st = Inl e"
        by (subst visit_unfold) simp
      then show ?thesis
        by (simp add: sorted_distinct_def)
    next
      case (Inr st2)
      with nvis nv have r: "visit tasks V t st
          = Inr (st2\<lparr>visited := insert (task_id t) (visited st2),
                     sorted_tasks := sorted_tasks st2 @ [t]\<rparr>)"
        by (subst visit_unfold) simp
      from fin Inr have "distinct (map task_id (sorted_tasks st2))"
        and "visited st2 = task_id ` set (sorted_tasks st2)"
        and "visited st2 \<inter> ?V = {}"
        by (auto simp: sorted_distinct_def)
      then show ?thesis
        unfolding r sorted_distinct_def using nv by auto
    qed
  qed
qed

lemma topologicalSort_distinct:
  assumes "topologicalSort tasks = Inr sorted'"
  shows "distinct (map task_id sorted')"
proof -
  let ?f = "\<lambda>t acc. case acc of Inl e \<Rightarrow> Inl e | Inr st \<Rightarrow> visit tasks {} t st"
  have "sorted_distinct {} (fold ?f tasks (Inr \<lparr>sorted_tasks = [], visited = {}\<rparr>))"
  proof (rule fold_invariant [where Q = "\<lambda>t. True"])
    show "sorted_distinct {} (Inr \<lparr>sorted_tasks = [], visited = {}\<rparr>)"
      by (simp add: sorted_distinct_def)
  next
    fix t :: "'a task" and acc :: "string + 'a sort_state"
    assume "sorted_distinct {} acc"
    then show "sorted_distinct {} (?f t acc)"
      by (cases acc) (simp_all add: visit_distinct)
  qed simp
  with assms show ?thesis
    by (auto simp: topologicalSort_unfold sorted_distinct_def split: sum.splits)
qed

section \<open>Facts about a run of the sorted tasks\<close>

lemma recordFailure_step:
  "results (recordFailure t m st) = AList.update (task_id t) (failed_result t m) (results st)"
  "errors (recordFailure t m st) = errors st @ [error_line (failed_result t m :: 'o task_result)]"
  "invoked (recordFailure t m st) = invoked (st :: 'o run_state)"
  by (simp_all add: recordFailure_def error_line_def failed_result_def)

lemma runTask_step:
  "\<exists>r. results (runTask agents t st) = AList.update (task_id t) r (results st)
       \<and> taskId r = task_id t
       \<and> errors (runTask agents t st) = errors st @ (if success r then [] else [error_line r])
       \<and> (invoked (runTask agents t st) = invoked st
           \<or> invoked (runTask agents t st) = invoked st @ [task_id t])"
proof -
  let ?fail = "\<lambda>m. failed_result t m"
  let ?P = "\<lambda>st' r. results st' = AList.update (task_id t) r (results st)
       \<and> taskId r = task_id t
       \<and> errors st' = errors st @ (if success r then [] else [error_line r])
       \<and> (invoked st' = invoked st \<or> invoked st' = invoked st @ [task_id t])"
  have fail: "?P (recordFailure t m st) (?fail m)" for m
    by (simp add: recordFailure_step) (simp add: failed_result_def)
  show ?thesis
  proof (cases "dependenciesMet (results st) t")
    case False
    then have "runTask agents t st
               = recordFailure t (''Dependencies not satisfied for task '' @ task_id t) st"
      by (simp add: runTask_def)
    with fail show ?thesis by metis
  next
    case met: True
    show ?thesis
    proof (cases "agents (task_type t)")
      case None
      with met have "runTask agents t st
               = recordFailure t (''No agent registered for type: '' @ task_type t) st"
        by (simp add: runTask_def)
      with fail show ?thesis by metis
    next
      case (Some a)
      show ?thesis
      proof (cases "a (prepareInput (results st) t)")
        case (Inl m)
        with met Some have "runTask agents t st
               = recordFailure t m (st\<lparr>invoked := invoked st @ [task_id t]\<rparr>)"
          by (simp add: runTask_def Let_def)
        then have "?P (runTask agents t st) (?fail m)"
          by (simp add: recordFailure_step) (simp add: failed_result_def)
        then show ?thesis by blast
      next
        case (Inr out)
        with met Some have "?P (runTask agents t st)
            \<lparr>taskId = task_id t, success = True, result_output = Some out, error = None\<rparr>"
          by (simp add: runTask_def Let_def)
        then show ?thesis by blast
      qed
    qed
  qed
qed

lemma run_invariant:
  assumes "distinct (map task_id ts)"
  shows "map fst (results (fold (runTask agents) ts initial_run)) = map task_id ts
       \<and> map taskId (map snd (results (fold (runTask agents) ts initial_run))) = map task_id ts
       \<and> errors (fold (runTask agents) ts initial_run)
           = map error_line (filter (\<lambda>r. \<not> success r)
               (map snd (results (fold (runTask agents) ts initial_run))))
       \<and> set (invoked (fold (runTask agents) ts initial_run)) \<subseteq> task_id ` set ts"
  using assms
proof (induction ts rule: rev_induct)
  case Nil
  show ?case by (simp add: initial_run_def)
next
  case (snoc t ts)
  define st where "st = fold (runTask agents) ts initial_run"
  from snoc have ih: "map fst (results st) = map task_id ts"
    "map taskId (map snd (results st)) = map task_id ts"
    "errors st = map error_line (filter (\<lambda>r. \<not> success r) (map snd (results st)))"
    "set (invoked st) \<subseteq> task_id ` set ts"
    and new: "task_id t \<notin> task_id ` set ts"
    by (simp_all add: st_def)
  from runTask_step [of agents t st] obtain r where
    r: "results (runTask agents t st) = AList.update (task_id t) r (results st)"
      "taskId r = task_id t"
      "errors (runTask agents t st) = errors st @ (if success r then [] else [error_line r])"
      "invoked (runTask agents t st) = invoked st
       \<or> invoked (runTask agents t st) = invoked st @ [task_id t]"
    by blast
  have "task_id t \<notin> fst ` set (results st)"
    using new ih(1) by (metis image_set)
  then have res: "results (runTask agents t st) = results st @ [(task_id t, r)]"
    unfolding r(1) by (rule update_new_key)
  have f: "fold (runTask agents) (ts @ [t]) initial_run = runTask agents t st"
    by (simp add: st_def)
  show ?case
    unfolding f
  proof (intro conjI)
    show "map fst (results (runTask agents t st)) = map task_id (ts @ [t])"
      by (simp add: res ih(1))
    show "map taskId (map snd (results (runTask agents t st))) = map task_id (ts @ [t])"
      using ih(2) by (simp add: res r(2))
    show "errors (runTask agents t st)
          = map error_line (filter (\<lambda>r. \<not> success r) (map snd (results (runTask agents t st))))"
      by (simp add: res r(3) ih(3))
    show "set (invoked (runTask agents t st)) \<subseteq> task_id ` set (ts @ [t])"
      using r(4) ih(4) by auto
  qed
qed

lemma run_keeps_other_tasks:
  assumes "x \<notin> task_id ` set ts"
  shows "map_of (results (fold (runTask agents) ts st)) x = map_of (results st) x
       \<and> (x \<in> set (invoked (fold (runTask agents) ts st)) \<longleftrightarrow> x \<in> set (invoked st))"
  using assms
proof (induction ts arbitrary: st)
  case Nil
  show ?case by simp
next
  case (Cons t ts)
  from runTask_step [of agents t st] obtain r where
    r: "results (runTask agents t st) = AList.update (task_id t) r (results st)"
      "invoked (runTask agents t st) = invoked st
       \<or> invoked (runTask agents t st) = invoked st @ [task_id t]"
    by blast
  from Cons.prems have ne: "x \<noteq> task_id t" and rest: "x \<notin> task_id ` set ts"
    by auto
  have 1: "map_of (results (runTask agents t st)) x = map_of (results st) x"
    unfolding r(1) using ne by (simp add: update_conv')
  have 2: "x \<in> set (invoked (runTask agents t st)) \<longleftrightarrow> x \<in> set (invoked st)"
    using r(2) ne by auto
  from Cons.IH [OF rest, of "runTask agents t st"] 1 2 show ?case
    by simp
qed

section \<open>The order of the sorted tasks\<close>

text \<open>
  When the sort returns, the sorted list holds exactly the tasks of the set, each once,
  and every task stands after the tasks of the set that it depends on.
\<close>

lemma deps_first_snoc:
  assumes "deps_first tasks ts"
    and "\<forall>d\<in>set (deps_of t). d \<in> task_id ` set tasks \<longrightarrow> d \<in> task_id ` set ts"
  shows "deps_first tasks (ts @ [t])"
  unfolding deps_first_def
proof (intro allI impI)
  fix k
  assume k: "k < length (ts @ [t])"
  show "\<forall>d\<in>set (deps_of ((ts @ [t]) ! k)).
          d \<in> task_id ` set tasks \<longrightarrow> d \<in> task_id ` set (take k (ts @ [t]))"
  proof (cases "k < length ts")
    case True
    with assms(1) show ?thesis
      unfolding deps_first_def by (simp add: nth_append)
  next
    case False
    with k have "k = length ts" by simp
    with assms(2) show ?thesis
      by (simp add: nth_append)
  qed
qed

lemma visit_placed:
  assumes "distinct (map task_id tasks)" and "t \<in> set tasks"
    and "\<forall>v. v \<in> V \<longrightarrow> (v, task_id t) \<in> (dep_edges tasks)\<^sup>+"
    and "placed tasks V (Inr st)"
  shows "placed tasks V (visit tasks V t st)"
  using assms
proof (induction tasks V t st rule: visit.induct)
  case (1 tasks V t st)
  let ?E = "dep_edges tasks"
  let ?V = "insert (task_id t) V"
  note dist = "1.prems"(1) and t = "1.prems"(2) and path = "1.prems"(3) and pl = "1.prems"(4)
  from pl have snd: "sound_state ?E V st" and sd: "sorted_distinct V (Inr st)"
    and sub: "set (sorted_tasks st) \<subseteq> set tasks" and df: "deps_first tasks (sorted_tasks st)"
    by (simp_all add: placed_def)
  show ?case
  proof (cases "task_id t \<in> visited st \<or> task_id t \<in> V")
    case True
    then have "visit tasks V t st
               = (if task_id t \<in> visited st then Inr st
                  else Inl (''Circular dependency detected involving task '' @ task_id t))"
      by (subst visit_unfold) auto
    with pl show ?thesis
      by (simp add: placed_def)
  next
    case False
    then have nvis: "task_id t \<notin> visited st" and nv: "task_id t \<notin> V"
      by simp_all
    have start: "placed tasks ?V (Inr st)"
      using snd sd sub df nvis
      by (auto simp: placed_def sound_state_def sorted_distinct_def)
    have step: "placed tasks ?V (visit_dep tasks ?V d acc)"
      if d: "d \<in> set (deps_of t)" and acc: "placed tasks ?V acc" for d acc
    proof (cases acc)
      case (Inl e)
      then show ?thesis
        by (simp add: visit_dep_def placed_def)
    next
      case (Inr st1)
      show ?thesis
      proof (cases "find (\<lambda>u. task_id u = d) tasks")
        case None
        with Inr acc show ?thesis
          by (simp add: visit_dep_def)
      next
        case (Some u)
        note u = find_task_Some [OF Some]
        have e: "(task_id t, d) \<in> ?E"
          using t d u by (intro dep_edges_intro) auto
        have p: "\<forall>v. v \<in> ?V \<longrightarrow> (v, task_id u) \<in> ?E\<^sup>+"
        proof (intro allI impI)
          fix v
          assume "v \<in> ?V"
          then consider "v = task_id t" | "v \<in> V" by blast
          then show "(v, task_id u) \<in> ?E\<^sup>+"
          proof cases
            case 1
            with e u show ?thesis by blast
          next
            case 2
            with path have "(v, task_id t) \<in> ?E\<^sup>+" by blast
            with e u show ?thesis by (blast intro: trancl_into_trancl)
          qed
        qed
        have "placed tasks ?V (visit tasks ?V u st1)"
          using nvis nv d Some dist u p acc Inr by (intro "1.IH") simp_all
        with Some Inr show ?thesis
          by (simp add: visit_dep_def)
      qed
    qed
    have fin: "placed tasks ?V (fold (visit_dep tasks ?V) (deps_of t) (Inr st))"
      by (rule fold_invariant [where Q = "\<lambda>d. d \<in> set (deps_of t)"]) (simp_all add: start step)
    show ?thesis
    proof (cases "fold (visit_dep tasks ?V) (deps_of t) (Inr st)")
      case (Inl e)
      with nvis nv have "visit tasks V t st = Inl e"
        by (subst visit_unfold) simp
      then show ?thesis
        by (simp add: placed_def)
    next
      case (Inr st2)
      let ?st' = "st2\<lparr>visited := insert (task_id t) (visited st2),
                     sorted_tasks := sorted_tasks st2 @ [t]\<rparr>"
      from nvis nv Inr have r: "visit tasks V t st = Inr ?st'"
        by (subst visit_unfold) simp
      from fin Inr have sub2: "set (sorted_tasks st2) \<subseteq> set tasks"
        and df2: "deps_first tasks (sorted_tasks st2)"
        and vis2: "visited st2 = task_id ` set (sorted_tasks st2)"
        by (simp_all add: placed_def sorted_distinct_def)
      have s': "sound_state ?E V ?st'"
        using visit_sound [OF dist t snd path] unfolding r visit_ok_def by simp
      have d': "sorted_distinct V (Inr ?st')"
        using visit_distinct [OF sd, of tasks t] unfolding r .
      have deps: "\<forall>d\<in>set (deps_of t). d \<in> task_id ` set tasks \<longrightarrow> d \<in> task_id ` set (sorted_tasks st2)"
      proof (intro ballI impI)
        fix d
        assume d: "d \<in> set (deps_of t)" "d \<in> task_id ` set tasks"
        then have e: "(task_id t, d) \<in> ?E"
          using t by (intro dep_edges_intro)
        from s' have cl: "closed_under ?E (insert (task_id t) (visited st2))"
          and ac: "(task_id t, task_id t) \<notin> ?E\<^sup>+"
          unfolding sound_state_def by simp_all
        from cl e have "d \<in> insert (task_id t) (visited st2)"
          unfolding closed_under_def by blast
        moreover from ac e have "d \<noteq> task_id t"
          by blast
        ultimately show "d \<in> task_id ` set (sorted_tasks st2)"
          using vis2 by blast
      qed
      have "deps_first tasks (sorted_tasks st2 @ [t])"
        using df2 deps by (rule deps_first_snoc)
      with s' d' sub2 t show ?thesis
        unfolding r placed_def by simp
    qed
  qed
qed

lemma topologicalSort_order:
  assumes dist: "distinct (map task_id tasks)" and ts: "topologicalSort tasks = Inr ts"
  shows "set ts = set tasks" and "distinct (map task_id ts)" and "deps_first tasks ts"
proof -
  let ?f = "\<lambda>t acc. case acc of Inl e \<Rightarrow> Inl e | Inr st \<Rightarrow> visit tasks {} t st"
  let ?r = "fold ?f tasks (Inr \<lparr>sorted_tasks = [], visited = {}\<rparr>)"
  have "placed tasks {} ?r"
  proof (rule fold_invariant [where Q = "\<lambda>t. t \<in> set tasks"])
    show "placed tasks {} (Inr \<lparr>sorted_tasks = [], visited = {}\<rparr>)"
      by (simp add: placed_def sound_state_def closed_under_def sorted_distinct_def deps_first_def)
  next
    fix t :: "'a task" and acc :: "string + 'a sort_state"
    assume t: "t \<in> set tasks" and acc: "placed tasks {} acc"
    show "placed tasks {} (?f t acc)"
    proof (cases acc)
      case (Inl e)
      then show ?thesis by (simp add: placed_def)
    next
      case (Inr st)
      with acc have "placed tasks {} (visit tasks {} t st)"
        by (intro visit_placed [OF dist t]) simp_all
      with Inr show ?thesis by simp
    qed
  qed simp
  moreover from ts obtain st where st: "?r = Inr st" and e: "ts = sorted_tasks st"
    by (auto simp: topologicalSort_unfold split: sum.splits)
  ultimately have sub: "set ts \<subseteq> set tasks" and df: "deps_first tasks ts"
    and vis: "visited st = task_id ` set ts" and d: "distinct (map task_id ts)"
    by (simp_all add: placed_def sorted_distinct_def e)
  from sort_loop_sound [OF dist] st have all: "task_id ` set tasks \<subseteq> visited st"
    by (simp add: deps_ok_def)
  have "set tasks \<subseteq> set ts"
  proof
    fix q
    assume q: "q \<in> set tasks"
    with all vis obtain s where s: "s \<in> set ts" "task_id s = task_id q"
      by (metis imageE image_eqI subsetD)
    with sub have "s \<in> set tasks" by blast
    with dist q s(2) have "s = q"
      by (simp add: distinct_map inj_on_def)
    with s(1) show "q \<in> set ts" by simp
  qed
  with sub show "set ts = set tasks" by blast
  from d show "distinct (map task_id ts)" .
  from df show "deps_first tasks ts" .
qed

section \<open>The outcome of each task of a run\<close>

text \<open>
  The dependency check and the input of a task read the result map only at the task's
  dependencies. In a run of a sorted list these entries are final when the task starts, so
  the result of every task can be read off the final result map.
\<close>

lemma dependenciesMet_deps:
  "dependenciesMet res t
   \<longleftrightarrow> \<not> (\<exists>d\<in>set (deps_of t). \<forall>r. map_of res d = Some r \<longrightarrow> \<not> success r)"
proof (cases "dependencies t")
  case None
  then show ?thesis
    by (simp add: dependenciesMet_def deps_of_def)
next
  case (Some deps)
  have "(case map_of res d of None \<Rightarrow> False | Some r \<Rightarrow> success r)
        \<longleftrightarrow> \<not> (\<forall>r. map_of res d = Some r \<longrightarrow> \<not> success r)" for d
    by (cases "map_of res d") simp_all
  with Some show ?thesis
    by (simp add: dependenciesMet_def deps_of_def list_all_iff)
qed

lemma dependenciesMet_cong:
  assumes "\<forall>d\<in>set (deps_of t). map_of r1 d = map_of r2 d"
  shows "dependenciesMet r1 t = dependenciesMet r2 t"
  using assms by (simp add: dependenciesMet_deps)

lemma prepareInput_cong:
  assumes "\<forall>d\<in>set (deps_of t). map_of r1 d = map_of r2 d"
  shows "prepareInput r1 t = prepareInput r2 t"
proof (cases "dependencies t")
  case None
  then show ?thesis
    by (simp add: prepareInput_def)
next
  case (Some deps)
  with assms have eq: "\<And>d. d \<in> set deps \<Longrightarrow> map_of r1 d = map_of r2 d"
    by (simp add: deps_of_def)
  have "fold (\<lambda>depId outs. case map_of r1 depId of None \<Rightarrow> outs
                | Some r \<Rightarrow> if success r then AList.update depId (result_output r) outs else outs)
          deps []
        = fold (\<lambda>depId outs. case map_of r2 depId of None \<Rightarrow> outs
                | Some r \<Rightarrow> if success r then AList.update depId (result_output r) outs else outs)
          deps []"
    by (rule fold_cong) (simp_all add: eq)
  with Some show ?thesis
    by (simp add: prepareInput_def)
qed

lemma runTask_outcome:
  "map_of (results (runTask agents t st)) (task_id t)
   = Some (if \<not> dependenciesMet (results st) t then dependency_failure t
           else case agents (task_type t) of
                  None \<Rightarrow> failed_result t (''No agent registered for type: '' @ task_type t)
                | Some agent \<Rightarrow>
                    (case agent (prepareInput (results st) t) of
                       Inl m \<Rightarrow> failed_result t m
                     | Inr out \<Rightarrow>
                         \<lparr>taskId = task_id t, success = True, result_output = Some out,
                          error = None\<rparr>))"
  "invoked (runTask agents t st)
   = (if dependenciesMet (results st) t \<and> agents (task_type t) \<noteq> None
      then invoked st @ [task_id t] else invoked st)"
  by (auto simp: runTask_def recordFailure_def dependency_failure_def failed_result_def
      update_conv' Let_def split: option.splits sum.splits)

lemma run_outcome:
  assumes dist: "distinct (map task_id ts)" and ord: "deps_first tasks ts"
    and ids: "set ts = set tasks" and t: "t \<in> set ts"
    and st: "st = fold (runTask agents) ts initial_run"
  shows "map_of (results st) (task_id t)
         = Some (if \<not> dependenciesMet (results st) t then dependency_failure t
                 else case agents (task_type t) of
                        None \<Rightarrow> failed_result t (''No agent registered for type: '' @ task_type t)
                      | Some agent \<Rightarrow>
                          (case agent (prepareInput (results st) t) of
                             Inl m \<Rightarrow> failed_result t m
                           | Inr out \<Rightarrow>
                               \<lparr>taskId = task_id t, success = True, result_output = Some out,
                                error = None\<rparr>))"
    and "task_id t \<in> set (invoked st)
         \<longleftrightarrow> dependenciesMet (results st) t \<and> agents (task_type t) \<noteq> None"
proof -
  from t obtain k where k: "k < length ts" and tk: "ts ! k = t"
    by (auto simp: in_set_conv_nth)
  define before where "before = state_before agents ts k"
  have split: "ts = take k ts @ t # drop (Suc k) ts"
    using id_take_nth_drop [OF k] tk by simp
  have "distinct (map task_id (take k ts @ t # drop (Suc k) ts))"
    using dist split by simp
  then have pre: "task_id t \<notin> task_id ` set (take k ts)"
    and post: "task_id t \<notin> task_id ` set (drop (Suc k) ts)"
    and dpre: "distinct (map task_id (take k ts))"
    and disj: "task_id ` set (take k ts) \<inter> task_id ` set (drop (Suc k) ts) = {}"
    by auto
  have "st = fold (runTask agents) (take k ts @ t # drop (Suc k) ts) initial_run"
    using st split by simp
  then have st': "st = fold (runTask agents) (drop (Suc k) ts) (runTask agents t before)"
    by (simp add: before_def state_before_def)
  note keep = run_keeps_other_tasks [OF post, of agents "runTask agents t before", folded st']
  have "set (invoked before) \<subseteq> task_id ` set (take k ts)"
    using run_invariant [OF dpre, of agents] by (simp add: before_def state_before_def)
  with pre have nb: "task_id t \<notin> set (invoked before)"
    by blast
  have same: "map_of (results st) d = map_of (results before) d" if d: "d \<in> set (deps_of t)" for d
  proof (cases "d \<in> task_id ` set tasks")
    case True
    with ord k tk d have in_pre: "d \<in> task_id ` set (take k ts)"
      unfolding deps_first_def by blast
    with pre disj have "d \<noteq> task_id t" and np: "d \<notin> task_id ` set (drop (Suc k) ts)"
      by blast+
    then have "map_of (results (runTask agents t before)) d = map_of (results before) d"
      using run_keeps_other_tasks [of d "[t]" agents before] by simp
    with run_keeps_other_tasks [OF np, of agents "runTask agents t before", folded st']
    show ?thesis by simp
  next
    case False
    with ids have "d \<notin> task_id ` set ts"
      by simp
    then have "d \<notin> task_id ` set (t # drop (Suc k) ts)"
      using split by (metis Un_iff image_Un set_append)
    then have "map_of (results st) d = map_of (results before) d"
      using run_keeps_other_tasks [of d "t # drop (Suc k) ts" agents before] st'
      by simp
    then show ?thesis by simp
  qed
  then have met: "dependenciesMet (results st) t = dependenciesMet (results before) t"
    and inp: "prepareInput (results st) t = prepareInput (results before) t"
    by (simp_all add: dependenciesMet_cong prepareInput_cong)
  show "map_of (results st) (task_id t)
         = Some (if \<not> dependenciesMet (results st) t then dependency_failure t
                 else case agents (task_type t) of
                        None \<Rightarrow> failed_result t (''No agent registered for type: '' @ task_type t)
                      | Some agent \<Rightarrow>
                          (case agent (prepareInput (results st) t) of
                             Inl m \<Rightarrow> failed_result t m
                           | Inr out \<Rightarrow>
                               \<lparr>taskId = task_id t, success = True, result_output = Some out,
                                error = None\<rparr>))"
    unfolding met inp using keep runTask_outcome(1) [of agents t before] by simp
  show "task_id t \<in> set (invoked st)
         \<longleftrightarrow> dependenciesMet (results st) t \<and> agents (task_type t) \<noteq> None"
    unfolding met using keep nb runTask_outcome(2) [of agents t before] by simp
qed

section \<open>The scenario of two debtors and one creditor\<close>

text \<open>
  Claim C3. For the debts alice \<open>\<rightarrow>\<close> bob 29.15 and charlie \<open>\<rightarrow>\<close> bob 29.15 with the
  default minimum amount, \<^verbatim>\<open>execute\<close> reports two optimized transactions. The net
  positions are alice \<open>-29.15\<close>, bob \<open>58.30\<close>, charlie \<open>-29.15\<close>, but the balances map
  that \<^verbatim>\<open>execute\<close> returns holds \<open>0\<close> for bob: the loop of \<^verbatim>\<open>optimizeDebts\<close> has
  overwritten the balance of the creditor's object before the map is built. The output
  check then throws for bob.
\<close>

theorem scenario_creditor_balance_overwritten:
  "optimizedTransactions (execute \<lparr>debts = scenario_debts, minimumAmount = None\<rparr>) = 2
   \<and> calculateNetPositions scenario_debts
       = [\<lparr>person = ''alice'', balance = - (2915 / 100)\<rparr>,
          \<lparr>person = ''bob'', balance = 5830 / 100\<rparr>,
          \<lparr>person = ''charlie'', balance = - (2915 / 100)\<rparr>]
   \<and> balances (execute \<lparr>debts = scenario_debts, minimumAmount = None\<rparr>)
       = [(''alice'', - (2915 / 100)), (''bob'', 0), (''charlie'', - (2915 / 100))]
   \<and> validateOutput (execute \<lparr>debts = scenario_debts, minimumAmount = None\<rparr>)
       = Inl (BalanceMismatch ''bob'' 0 (5830 / 100))"
  by code_simp

section \<open>The empty debt list\<close>

text \<open>
  Claim C10. On an empty debt list \<^verbatim>\<open>execute\<close> returns the all-zero output with no
  transactions and no balances, whatever the minimum amount; the runner without
  guardrails returns that output (the output check passes); the rejection
  \<open>At least one debt is required\<close> comes from the business-rule guardrail, when it is
  registered.
\<close>

theorem empty_debts_succeed:
  "execute \<lparr>debts = [], minimumAmount = m\<rparr> = empty_output
   \<and> run [] \<lparr>debts = [], minimumAmount = m\<rparr> = Inr empty_output
   \<and> run [BusinessLogicGuardrail] \<lparr>debts = [], minimumAmount = m\<rparr>
       = Inl (InputValidationFailed ''BusinessLogic'' ''At least one debt is required'')"
  by (simp add: run_def execute_def validateOutput_def empty_output_def
      BusinessLogicGuardrail_def replayBalances_def)

section \<open>Cycle detection on the three-party cycle\<close>

text \<open>
  Claim C9. On the cycle A \<open>\<rightarrow>\<close> B \<open>\<rightarrow>\<close> C \<open>\<rightarrow>\<close> A of three debts of 10,
  \<^verbatim>\<open>detectCircularDebts\<close> leaves no remaining debt, and its list \<^verbatim>\<open>circular\<close>
  holds three entries: the same cycle, found once from each of its three parties.
\<close>

theorem three_cycle_found_three_times:
  "map (map index) (circular (detectCircularDebts cycle_debts)) = [[0, 1, 2], [1, 2, 0], [2, 0, 1]]
   \<and> length (circular (detectCircularDebts cycle_debts)) = 3
   \<and> remaining (detectCircularDebts cycle_debts) = []"
  by code_simp

section \<open>Conservation of money\<close>

text \<open>
  Claim C2. The balances accumulated by \<^verbatim>\<open>calculateNetPositions\<close> sum to \<open>0\<close>
  before they are rounded, and the rounded balances it returns sum to \<open>0\<close> up to half a
  cent for each party. The balances map that \<^verbatim>\<open>execute\<close> returns is built after the
  matching loop has overwritten the creditors' balances: for the scenario of two debtors
  and one creditor it sums to \<open>-58.30\<close>.
\<close>

theorem net_positions_sum_to_zero:
  "sum_list (map snd (accumulatePositions ds)) = 0
   \<and> \<bar>sum_list (map balance (calculateNetPositions ds))\<bar>
       \<le> of_nat (length (calculateNetPositions ds)) * (1 / 200)
   \<and> sum_list (map snd (balances (execute \<lparr>debts = scenario_debts, minimumAmount = None\<rparr>)))
       = - (5830 / 100)"
proof -
  have "length (calculateNetPositions ds) = length (accumulatePositions ds)"
    by (simp add: calculateNetPositions_def)
  then have "sum_list (map snd (accumulatePositions ds)) = 0
     \<and> \<bar>sum_list (map balance (calculateNetPositions ds))\<bar>
         \<le> of_nat (length (calculateNetPositions ds)) * (1 / 200)"
    using sum_rounded_bound [of "accumulatePositions ds"]
    by (simp add: map_balance_calculateNetPositions sum_accumulatePositions)
  moreover have "sum_list (map snd (balances (execute \<lparr>debts = scenario_debts, minimumAmount = None\<rparr>)))
       = - (5830 / 100)"
    by code_simp
  ultimately show ?thesis
    by blast
qed

section \<open>The bound on the number of transactions\<close>

text \<open>
  Claim C4. The number of transactions that \<^verbatim>\<open>execute\<close> reports is at most
  \<open>max(0, k - 1)\<close>, where \<open>k\<close> is the number of parties whose rounded net balance (as
  \<^verbatim>\<open>calculateNetPositions\<close> returns it) is not \<open>0\<close>.
\<close>

theorem transaction_bound:
  "optimizedTransactions (execute inp)
   \<le> max 0 (int (length (filter (\<lambda>np. balance np \<noteq> 0) (calculateNetPositions (debts inp)))) - 1)"
proof (cases "debts inp = []")
  case True
  then show ?thesis
    by (simp add: execute_empty empty_output_def)
next
  case False
  define nps where "nps = calculateNetPositions (debts inp)"
  define fs where "fs = filter (\<lambda>np. \<bar>balance np\<bar> \<ge> min_amount inp) nps"
  have "length (filter (\<lambda>np. balance np \<noteq> 0) fs) \<le> length (filter (\<lambda>np. balance np \<noteq> 0) nps)"
    unfolding fs_def by (induction nps) auto
  moreover have "optimizedTransactions (execute inp) = int (length (settlePositions fs))"
    by (simp add: optimizedTransactions_execute transactions_execute [OF False] fs_def nps_def)
  ultimately show ?thesis
    using settlePositions_length [of fs] by (simp add: nps_def)
qed

section \<open>The amounts of the transactions\<close>

text \<open>
  Claim C8, as amended. Every transaction that \<^verbatim>\<open>execute\<close> emits has an amount of
  at least \<open>0.01\<close>; an amount of exactly one cent is emitted, smaller ones are dropped.
\<close>

theorem transaction_amounts_at_least_one_cent:
  "\<forall>t\<in>set (transactions (execute inp)). 1 / 100 \<le> amount t"
proof (cases "debts inp = []")
  case True
  then show ?thesis
    by (simp add: execute_empty empty_output_def)
next
  case False
  show ?thesis
    unfolding transactions_execute [OF False] by (rule settleLoop_amounts_start)
qed

lemma cent_debts_transactions:
  "transactions (execute \<lparr>debts = cent_debts, minimumAmount = None\<rparr>)
   = [\<lparr>from_id = ''d1'', to_id = ''c1'', amount = 99 / 100\<rparr>,
      \<lparr>from_id = ''d2'', to_id = ''c1'', amount = 1 / 100\<rparr>,
      \<lparr>from_id = ''d2'', to_id = ''c2'', amount = 1 / 2\<rparr>]"
  by code_simp

theorem transaction_amounts_witness:
  "length (transactions (execute \<lparr>debts = cent_debts, minimumAmount = None\<rparr>)) = 3
   \<and> 1 / 100 \<le> amount (transactions (execute \<lparr>debts = cent_debts, minimumAmount = None\<rparr>) ! 1)"
  using transaction_amounts_at_least_one_cent [of "\<lparr>debts = cent_debts, minimumAmount = None\<rparr>"]
  by (simp add: cent_debts_transactions)

text \<open>
  The claim as stated (every amount strictly greater than \<open>0.01\<close>) fails with the
  default minimum amount: the second transaction below is of exactly one cent.
\<close>

theorem one_cent_transaction_emitted:
  "transactions (execute \<lparr>debts = cent_debts, minimumAmount = None\<rparr>) ! 1
     = \<lparr>from_id = ''d2'', to_id = ''c1'', amount = 1 / 100\<rparr>
   \<and> \<not> (\<forall>t\<in>set (transactions (execute \<lparr>debts = cent_debts, minimumAmount = None\<rparr>)).
          1 / 100 < amount t)"
  by (simp add: cent_debts_transactions)

section \<open>Balance preservation\<close>

text \<open>
  Claim C1. The transactions of \<^verbatim>\<open>execute\<close> do not always reproduce the net
  balances, and the output check of the engine rejects outputs of \<^verbatim>\<open>execute\<close>. For
  the single debt alice \<open>\<rightarrow>\<close> bob of \<open>0.30\<close> and the default minimum amount \<open>0.5\<close>,
  both parties fall below the minimum amount and no transaction is emitted; the replayed
  balance of alice is \<open>0\<close> against a net balance of \<open>-0.30\<close>, more than \<open>0.01\<close> apart;
  \<^verbatim>\<open>validateOutput\<close> throws the balance mismatch for alice, and so does \<^verbatim>\<open>run\<close>.
\<close>

theorem forgiven_debt_fails_validation:
  "transactions (execute \<lparr>debts = forgiven_debts, minimumAmount = None\<rparr>) = []
   \<and> calculateNetPositions forgiven_debts
       = [\<lparr>person = ''alice'', balance = - (3 / 10)\<rparr>, \<lparr>person = ''bob'', balance = 3 / 10\<rparr>]
   \<and> balances (execute \<lparr>debts = forgiven_debts, minimumAmount = None\<rparr>)
       = [(''alice'', - (3 / 10)), (''bob'', 3 / 10)]
   \<and> get_or_0 (replayBalances (transactions (execute \<lparr>debts = forgiven_debts, minimumAmount = None\<rparr>)))
        ''alice'' = 0
   \<and> 1 / 100 < \<bar>get_or_0 (replayBalances
                     (transactions (execute \<lparr>debts = forgiven_debts, minimumAmount = None\<rparr>)))
                   ''alice''
                 - get_or_0 (balances (execute \<lparr>debts = forgiven_debts, minimumAmount = None\<rparr>))
                     ''alice''\<bar>
   \<and> validateOutput (execute \<lparr>debts = forgiven_debts, minimumAmount = None\<rparr>)
       = Inl (BalanceMismatch ''alice'' (- (3 / 10)) 0)
   \<and> run [] \<lparr>debts = forgiven_debts, minimumAmount = None\<rparr>
       = Inl (BalanceMismatch ''alice'' (- (3 / 10)) 0)"
  by code_simp

section \<open>The Gini coefficient of the fairness scorer\<close>










section \<open>Circular dependencies\<close>

text \<open>
  Claim C5. When the task ids are distinct and the dependency graph of the task set has
  a cycle, \<^verbatim>\<open>AgentOrchestrator.execute\<close> fails with the error
  \<open>Circular dependency detected involving task y\<close> for a task \<open>y\<close> that lies on a cycle;
  the run ends with no task result and no agent invoked.
\<close>

theorem circular_dependency_fails:
  assumes "distinct (map task_id tasks)" and "(x, x) \<in> (dep_edges tasks)\<^sup>+"
  shows "\<exists>y. (y, y) \<in> (dep_edges tasks)\<^sup>+
             \<and> AgentOrchestrator_execute agents tasks
                 = (Inl (''Circular dependency detected involving task '' @ y),
                    \<lparr>results = [], errors = [], invoked = []\<rparr>)"
proof -
  from topologicalSort_cyclic [OF assms] obtain y where
    "topologicalSort tasks = Inl (''Circular dependency detected involving task '' @ y)"
    and "(y, y) \<in> (dep_edges tasks)\<^sup>+"
    unfolding names_cycle_def by blast
  then show ?thesis
    by (auto simp: AgentOrchestrator_execute_def)
qed

lemma cycle_tasks_edges:
  "(''A'', ''B'') \<in> dep_edges cycle_tasks" "(''B'', ''C'') \<in> dep_edges cycle_tasks"
  "(''C'', ''A'') \<in> dep_edges cycle_tasks"
  using dep_edges_intro [of "cycle_tasks ! 0" cycle_tasks "''B''"]
    dep_edges_intro [of "cycle_tasks ! 1" cycle_tasks "''C''"]
    dep_edges_intro [of "cycle_tasks ! 2" cycle_tasks "''A''"]
  by (simp_all add: cycle_tasks_def deps_of_def)

lemma cycle_tasks_cycle: "(''A'', ''A'') \<in> (dep_edges cycle_tasks)\<^sup>+"
proof -
  have "(''A'', ''B'') \<in> (dep_edges cycle_tasks)\<^sup>+"
    using cycle_tasks_edges(1) by (rule r_into_trancl)
  then have "(''A'', ''C'') \<in> (dep_edges cycle_tasks)\<^sup>+"
    using cycle_tasks_edges(2) by (rule trancl_into_trancl)
  then show ?thesis
    using cycle_tasks_edges(3) by (rule trancl_into_trancl)
qed

theorem circular_dependency_witness:
  "distinct (map task_id cycle_tasks)
   \<and> (''A'', ''A'') \<in> (dep_edges cycle_tasks)\<^sup>+
   \<and> AgentOrchestrator_execute demo_agents cycle_tasks
       = (Inl ''Circular dependency detected involving task A'',
          \<lparr>results = [], errors = [], invoked = []\<rparr>)"
proof -
  have d: "distinct (map task_id cycle_tasks)"
    by (simp add: cycle_tasks_def)
  have e: "AgentOrchestrator_execute demo_agents cycle_tasks
       = (Inl ''Circular dependency detected involving task A'',
          \<lparr>results = [], errors = [], invoked = []\<rparr>)"
    by (simp add: AgentOrchestrator_execute_def topologicalSort_def cycle_tasks_def visit.simps
        deps_of_def)
  from circular_dependency_fails [OF d cycle_tasks_cycle, of demo_agents] d cycle_tasks_cycle e
  show ?thesis by simp
qed

section \<open>Failure isolation in a run\<close>

text \<open>
  Claim C6. For a task set with distinct ids and no cyclic dependency,
  \<^verbatim>\<open>AgentOrchestrator.execute\<close> returns a report. The tasks that run are exactly the
  queued tasks, each once and after the queued tasks it depends on, and the report holds
  one result for each of them, in that order, whatever fails. A task with a declared
  dependency whose result is missing or not a success is recorded as failed with the
  message \<open>Dependencies not satisfied for task id\<close> and its agent is not invoked. Every
  other task runs regardless of the failures of the tasks before it: without an agent
  registered for its type it is recorded as failed with
  \<open>No agent registered for type: type\<close>; otherwise its agent is invoked on the prepared
  input, and the result is the success with the agent's output, or the failure with the
  message that the agent throws. The run's \<^verbatim>\<open>success\<close> is the conjunction of the
  results' \<^verbatim>\<open>success\<close>, and \<^verbatim>\<open>errors\<close> holds the message of every failed result,
  one each, in order.
\<close>

theorem task_failures_are_isolated:
  assumes "distinct (map task_id queue)" and "\<forall>x. (x, x) \<notin> (dep_edges queue)\<^sup>+"
  shows "\<exists>ts res st.
           AgentOrchestrator_execute agents queue = (Inr res, st)
           \<and> topologicalSort queue = Inr ts
           \<and> mset ts = mset queue
           \<and> deps_first queue ts
           \<and> map fst (results st) = map task_id ts
           \<and> run_results res = map snd (results st)
           \<and> map taskId (run_results res) = map task_id ts
           \<and> run_success res = list_all success (run_results res)
           \<and> run_errors res = map error_line (filter (\<lambda>r. \<not> success r) (run_results res))
           \<and> (\<forall>t\<in>set queue.
                 if \<exists>d\<in>set (deps_of t). \<forall>r. map_of (results st) d = Some r \<longrightarrow> \<not> success r
                 then map_of (results st) (task_id t) = Some (dependency_failure t)
                      \<and> task_id t \<notin> set (invoked st)
                 else (case agents (task_type t) of
                         None \<Rightarrow>
                           map_of (results st) (task_id t)
                             = Some (failed_result t
                                      (''No agent registered for type: '' @ task_type t))
                           \<and> task_id t \<notin> set (invoked st)
                       | Some agent \<Rightarrow>
                           task_id t \<in> set (invoked st)
                           \<and> map_of (results st) (task_id t)
                               = Some (case agent (prepareInput (results st) t) of
                                         Inl m \<Rightarrow> failed_result t m
                                       | Inr out \<Rightarrow>
                                           \<lparr>taskId = task_id t, success = True,
                                            result_output = Some out, error = None\<rparr>)))"
proof -
  from topologicalSort_acyclic [OF assms] obtain ts where ts: "topologicalSort queue = Inr ts"
    by blast
  define st where "st = fold (runTask agents) ts initial_run"
  define res where "res = \<lparr>run_success = (length (errors st) = 0),
                           run_results = map snd (results st), run_errors = errors st\<rparr>"
  have e: "AgentOrchestrator_execute agents queue = (Inr res, st)"
    by (simp add: AgentOrchestrator_execute_def ts Let_def st_def res_def initial_run_def)
  note ord = topologicalSort_order [OF assms(1) ts]
  have "distinct ts" and "distinct queue"
    using ord(2) assms(1) by (simp_all add: distinct_map)
  with ord(1) have m: "mset ts = mset queue"
    by (simp add: set_eq_iff_mset_eq_distinct)
  note inv = run_invariant [OF ord(2), of agents, folded st_def]
  have 0: "map fst (results st) = map task_id ts"
    using inv by simp
  have 1: "map taskId (run_results res) = map task_id ts"
    using inv by (simp add: res_def)
  have 3: "run_errors res = map error_line (filter (\<lambda>r. \<not> success r) (run_results res))"
    using inv by (simp add: res_def)
  have 2: "run_success res = list_all success (run_results res)"
  proof -
    have "run_success res = (run_errors res = [])"
      by (simp add: res_def)
    also have "\<dots> = (filter (\<lambda>r. \<not> success r) (run_results res) = [])"
      unfolding 3 by simp
    also have "\<dots> = list_all success (run_results res)"
      by (simp add: filter_empty_conv list_all_iff)
    finally show ?thesis .
  qed
  have 4: "if \<exists>d\<in>set (deps_of t). \<forall>r. map_of (results st) d = Some r \<longrightarrow> \<not> success r
           then map_of (results st) (task_id t) = Some (dependency_failure t)
                \<and> task_id t \<notin> set (invoked st)
           else (case agents (task_type t) of
                   None \<Rightarrow>
                     map_of (results st) (task_id t)
                       = Some (failed_result t
                                (''No agent registered for type: '' @ task_type t))
                     \<and> task_id t \<notin> set (invoked st)
                 | Some agent \<Rightarrow>
                     task_id t \<in> set (invoked st)
                     \<and> map_of (results st) (task_id t)
                         = Some (case agent (prepareInput (results st) t) of
                                   Inl m \<Rightarrow> failed_result t m
                                 | Inr out \<Rightarrow>
                                     \<lparr>taskId = task_id t, success = True,
                                      result_output = Some out, error = None\<rparr>))"
    if "t \<in> set queue" for t
  proof -
    from that ord(1) have t: "t \<in> set ts"
      by simp
    note out = run_outcome [OF ord(2) ord(3) ord(1) t st_def, unfolded dependenciesMet_deps]
    show ?thesis
    proof (cases "\<exists>d\<in>set (deps_of t). \<forall>r. map_of (results st) d = Some r \<longrightarrow> \<not> success r")
      case True
      with out show ?thesis
        by simp
    next
      case False
      with out show ?thesis
        unfolding if_not_P [OF False] by (cases "agents (task_type t)") auto
    qed
  qed
  have 5: "run_results res = map snd (results st)"
    by (simp add: res_def)
  from 4 have 6: "\<forall>t\<in>set queue.
       if \<exists>d\<in>set (deps_of t). \<forall>r. map_of (results st) d = Some r \<longrightarrow> \<not> success r
       then map_of (results st) (task_id t) = Some (dependency_failure t)
            \<and> task_id t \<notin> set (invoked st)
       else (case agents (task_type t) of
               None \<Rightarrow>
                 map_of (results st) (task_id t)
                   = Some (failed_result t
                            (''No agent registered for type: '' @ task_type t))
                 \<and> task_id t \<notin> set (invoked st)
             | Some agent \<Rightarrow>
                 task_id t \<in> set (invoked st)
                 \<and> map_of (results st) (task_id t)
                     = Some (case agent (prepareInput (results st) t) of
                               Inl m \<Rightarrow> failed_result t m
                             | Inr out \<Rightarrow>
                                 \<lparr>taskId = task_id t, success = True,
                                  result_output = Some out, error = None\<rparr>))"
    by (rule ballI)
  show ?thesis
    by (rule exI [of _ ts], rule exI [of _ res], rule exI [of _ st])
      (intro conjI e ts m ord(3) 0 5 1 2 3 6)
qed

lemma isolation_run:
  "AgentOrchestrator_execute isolation_agents isolation_tasks
   = (Inr \<lparr>run_success = False, run_results = isolation_results, run_errors = isolation_errors\<rparr>,
      \<lparr>results = map (\<lambda>r. (taskId r, r)) isolation_results, errors = isolation_errors,
       invoked = [''T1'', ''T2'', ''T4'', ''T7'']\<rparr>)"
  by code_simp

lemma isolation_sort: "topologicalSort isolation_tasks = Inr isolation_order"
  by code_simp

lemma isolation_distinct: "distinct (map task_id isolation_tasks)"
  by (simp add: isolation_tasks_def mk_task_def)

lemma ranked_acyclic:
  fixes f :: "string \<Rightarrow> nat"
  assumes "\<And>x y. (x, y) \<in> E \<Longrightarrow> f y < f x"
  shows "(x, x) \<notin> E\<^sup>+"
proof
  have down: "f b < f a" if "(a, b) \<in> E\<^sup>+" for a b
    using that
  proof (induction rule: trancl_induct)
    case (base y)
    then show ?case by (rule assms)
  next
    case (step y z)
    from assms [OF step.hyps(2)] step.IH show ?case by simp
  qed
  assume "(x, x) \<in> E\<^sup>+"
  from down [OF this] show False by simp
qed

lemma isolation_acyclic: "\<forall>x. (x, x) \<notin> (dep_edges isolation_tasks)\<^sup>+"
proof
  fix x
  define f :: "string \<Rightarrow> nat" where
    "f = (\<lambda>s. if s = ''T3'' then 2 else if s = ''T2'' \<or> s = ''T7'' then 1 else 0)"
  have "f b < f a" if "(a, b) \<in> dep_edges isolation_tasks" for a b
    using that unfolding dep_edges_def
    by (auto simp: isolation_tasks_def mk_task_def deps_of_def f_def)
  then show "(x, x) \<notin> (dep_edges isolation_tasks)\<^sup>+"
    by (rule ranked_acyclic)
qed

theorem task_failures_witness:
  "distinct (map task_id isolation_tasks)
   \<and> (\<forall>x. (x, x) \<notin> (dep_edges isolation_tasks)\<^sup>+)
   \<and> AgentOrchestrator_execute isolation_agents isolation_tasks
       = (Inr \<lparr>run_success = False, run_results = isolation_results,
               run_errors = isolation_errors\<rparr>,
          \<lparr>results = map (\<lambda>r. (taskId r, r)) isolation_results, errors = isolation_errors,
           invoked = [''T1'', ''T2'', ''T4'', ''T7'']\<rparr>)
   \<and> topologicalSort isolation_tasks = Inr isolation_order
   \<and> mset isolation_order = mset isolation_tasks
   \<and> map taskId isolation_results = map task_id isolation_order
   \<and> isolation_errors = map error_line (filter (\<lambda>r. \<not> success r) isolation_results)"
  using task_failures_are_isolated [OF isolation_distinct isolation_acyclic, of isolation_agents]
    isolation_run isolation_sort isolation_distinct isolation_acyclic
  by auto

end
